theory Spec2Isabelle
  imports Main
begin

section \<open>The mpstat log pipeline of pmpstat.py\<close>

text \<open>
  The script pmpstat.py captures the output of mpstat in a log file and then runs four
  functions one after the other on the same CSV path: \<open>convert_to_csv\<close>,
  \<open>remove_cpu_rows\<close>, \<open>sort_cpu_data\<close> and \<open>process_file\<close>. Each of them reads
  the whole file, transforms it and writes the file again. Every function body stands in
  \<open>try: ... except Exception: ... sys.exit(1)\<close>.

  Scope of the model.
  \<^item> The capture (\<open>measure_cpu_usage\<close>) starts an external process; the model begins
    with the lines of the log file as \<open>readlines()\<close> returns them.
  \<^item> A Python string is a list of code points. The model uses \<open>string\<close>, so it covers
    text whose code points are below 256; the character classes below are the ones of
    Python for that range.
  \<^item> A CSV file is modelled by the list of its records, each record a list of fields.
    \<open>csv.writer\<close> quotes what needs quoting, so \<open>csv.reader\<close> gets the same records
    back, with two exceptions that are part of the model: the reader raises an error on a
    field of more than 131072 characters, and a file opened for reading without
    \<open>newline=''\<close> has its carriage returns turned into line feeds. The library is the
    one of CPython 3.11 with its default settings.
    Failures of the operating system (a missing file, a full disk) are not modelled.
  \<^item> \<open>sys.exit(1)\<close> ends the run: the model returns the exit together with the content
    the CSV path holds at that moment.
\<close>

subsection \<open>Python values the script uses\<close>

datatype py_error = IndexError | KeyError | ValueError | TypeError | StopIteration | CsvError

datatype outcome = Returned | SysExit nat

type_synonym csv = "string list list"

text \<open>\<open>xs[i]\<close> for a non-negative index: IndexError is the value \<open>None\<close>.\<close>

definition item :: "'a list \<Rightarrow> nat \<Rightarrow> 'a option" where
  "item xs i = (if i < length xs then Some (xs ! i) else None)"

text \<open>\<open>len(xs)\<close>, as an integer.\<close>

definition len :: "'a list \<Rightarrow> int" where
  "len xs = int (length xs)"

text \<open>
  The character classes, on the code point of the character. \<open>str.isspace\<close> below 256:
  the ASCII controls 9 to 13 and 28 to 31, the space (32), NEL (133) and the no-break
  space (160). \<open>str.isdigit\<close> below 256: the ASCII digits (48 to 57) and the superscript
  digits two, three and one (178, 179, 185). The decimal digits that \<open>int()\<close> and
  \<open>strptime\<close> accept below 256 are the ASCII digits only.
\<close>

definition ord :: "char \<Rightarrow> int" where
  "ord c = of_char c"

definition isspace :: "char \<Rightarrow> bool" where
  "isspace c = ((9 \<le> ord c \<and> ord c \<le> 13) \<or> (28 \<le> ord c \<and> ord c \<le> 32)
                \<or> ord c = 133 \<or> ord c = 160)"

definition isdigit :: "char \<Rightarrow> bool" where
  "isdigit c = ((48 \<le> ord c \<and> ord c \<le> 57) \<or> ord c = 178 \<or> ord c = 179 \<or> ord c = 185)"

definition digit_val :: "char \<Rightarrow> int option" where
  "digit_val c = (if 48 \<le> ord c \<and> ord c \<le> 57 then Some (ord c - 48) else None)"

text \<open>\<open>s.strip()\<close>: leading and trailing whitespace removed.\<close>

definition strip :: "string \<Rightarrow> string" where
  "strip s = rev (dropWhile isspace (rev (dropWhile isspace s)))"

text \<open>
  \<open>s.split()\<close>: the maximal runs of characters that are not whitespace, in order.
  \<open>split_from cur s\<close> scans \<open>s\<close> with the token being read in \<open>cur\<close> (reversed).
\<close>

fun split_from :: "string \<Rightarrow> string \<Rightarrow> string list" where
  "split_from cur [] = (if cur = [] then [] else [rev cur])"
| "split_from cur (c # cs) =
     (if isspace c then (if cur = [] then split_from [] cs else rev cur # split_from [] cs)
      else split_from (c # cur) cs)"

definition split :: "string \<Rightarrow> string list" where
  "split s = split_from [] s"

definition startswith :: "string \<Rightarrow> string \<Rightarrow> bool" where
  "startswith s p = (take (length p) s = p)"

subsection \<open>convert_to_csv\<close>

definition header :: "string list" where
  "header = [''time'', ''CPU'', ''%usr'', ''%nice'', ''%sys'', ''%iowait'', ''%irq'',
             ''%soft'', ''%steal'', ''%guest'', ''%gnice'', ''%idle'']"

text \<open>
  One turn of the loop over the lines: \<open>Inr None\<close> when the line adds no record,
  \<open>Inr (Some cpu_stats)\<close> when it adds one. \<open>current_time\<close> is set to \<open>parts[0]\<close>
  whenever it differs from it, so \<open>cpu_stats\<close> is \<open>[parts[0]] + parts[1:]\<close>; \<open>parts[0]\<close>
  on an empty list would raise IndexError.
\<close>

definition convert_line :: "string \<Rightarrow> py_error + string list option" where
  "convert_line raw =
     (let line = strip raw in
      if line = [] \<or> startswith line ''CPU'' then Inr None
      else (case item line 0 of
              None \<Rightarrow> Inl IndexError
            | Some c0 \<Rightarrow>
                if isdigit c0 then
                  (let parts = split line in
                   case item parts 0 of
                     None \<Rightarrow> Inl IndexError
                   | Some time \<Rightarrow> Inr (Some ([time] @ drop 1 parts)))
                else Inr None))"

fun convert_lines :: "string list \<Rightarrow> py_error + csv" where
  "convert_lines [] = Inr []"
| "convert_lines (l # ls) =
     (case convert_line l of
        Inl e \<Rightarrow> Inl e
      | Inr r \<Rightarrow>
          (case convert_lines ls of
             Inl e \<Rightarrow> Inl e
           | Inr data \<Rightarrow> Inr ((case r of None \<Rightarrow> [] | Some row \<Rightarrow> [row]) @ data)))"

text \<open>
  The file is opened for writing only after the loop, so an exception in the loop leaves
  the path as it was (\<open>old\<close>).
\<close>

definition convert_to_csv :: "string list \<Rightarrow> csv \<Rightarrow> outcome \<times> csv" where
  "convert_to_csv lines old =
     (case convert_lines lines of
        Inl e \<Rightarrow> (SysExit 1, old)
      | Inr data \<Rightarrow> (Returned, header # data))"

subsection \<open>Reading a CSV file\<close>

text \<open>
  \<open>csv.reader\<close> raises \<open>csv.Error\<close> as soon as a field grows beyond the field size
  limit, 131072 characters; otherwise it returns the records of the file.
\<close>

definition field_limit :: int where
  "field_limit = 131072"

definition over_limit :: "csv \<Rightarrow> bool" where
  "over_limit f = (\<exists>r \<in> set f. \<exists>t \<in> set r. field_limit < len t)"

definition csv_reader :: "csv \<Rightarrow> py_error + csv" where
  "csv_reader f = (if over_limit f then Inl CsvError else Inr f)"

text \<open>
  A file opened in text mode without \<open>newline=''\<close> is read with universal newlines: a
  carriage return followed by a line feed, and a carriage return alone, arrive as one
  line feed. Such characters stand in quoted fields only, so the records stay the same
  and every field is translated.
\<close>

fun universal_newlines :: "string \<Rightarrow> string" where
  "universal_newlines [] = []"
| "universal_newlines [c] = [if c = CHR 0x0D then CHR 0x0A else c]"
| "universal_newlines (c # d # cs) =
     (if c = CHR 0x0D then
        (if d = CHR 0x0A then CHR 0x0A # universal_newlines cs
         else CHR 0x0A # universal_newlines (d # cs))
      else c # universal_newlines (d # cs))"

definition text_mode :: "csv \<Rightarrow> csv" where
  "text_mode f = map (map universal_newlines) f"

subsection \<open>remove_cpu_rows\<close>

text \<open>
  The test of the loop, \<open>len(line) > 1 and line[1].strip() == "CPU" and
  line[0].strip() != "time"\<close>; a line that passes it is skipped.
\<close>

definition is_cpu_row :: "string list \<Rightarrow> bool" where
  "is_cpu_row line =
     (length line > 1 \<and> strip (line ! 1) = ''CPU'' \<and> strip (line ! 0) \<noteq> ''time'')"

fun filter_lines :: "csv \<Rightarrow> csv" where
  "filter_lines [] = []"
| "filter_lines (line # lines) =
     (if is_cpu_row line then filter_lines lines else line # filter_lines lines)"

text \<open>
  The input is opened without \<open>newline=''\<close> and read whole before the file is opened
  for writing: an error of the reader leaves the file as it was.
\<close>

definition remove_cpu_rows :: "csv \<Rightarrow> outcome \<times> csv" where
  "remove_cpu_rows f =
     (case csv_reader (text_mode f) of
        Inl e \<Rightarrow> (SysExit 1, f)
      | Inr lines \<Rightarrow> (Returned, filter_lines lines))"

subsection \<open>sort_cpu_data\<close>

text \<open>
  \<open>int(s)\<close> for a string, base 10. The blanks \<open>int\<close> drops around the number are not
  those of \<open>str.strip\<close>: below 256 they are the code points 9 to 13, 32, 133 and 160, and
  the separators 28 to 31 are not among them. Then comes an optional sign, then decimal
  digits, where one underscore may stand between two digits. A number of more than 4300
  digits is refused (the default limit of the interpreter; underscores and the sign do
  not count, leading zeros do). Any other text raises ValueError (\<open>None\<close> here).
\<close>

definition int_space :: "char \<Rightarrow> bool" where
  "int_space c = ((9 \<le> ord c \<and> ord c \<le> 13) \<or> ord c = 32 \<or> ord c = 133 \<or> ord c = 160)"

definition int_strip :: "string \<Rightarrow> string" where
  "int_strip s = rev (dropWhile int_space (rev (dropWhile int_space s)))"

fun digits_from :: "int \<Rightarrow> string \<Rightarrow> int option" where
  "digits_from acc [] = Some acc"
| "digits_from acc [c] =
     (case digit_val c of None \<Rightarrow> None | Some v \<Rightarrow> Some (10 * acc + v))"
| "digits_from acc (c # d # ds) =
     (if c = CHR ''_'' then
        (case digit_val d of None \<Rightarrow> None | Some v \<Rightarrow> digits_from (10 * acc + v) ds)
      else
        (case digit_val c of None \<Rightarrow> None | Some v \<Rightarrow> digits_from (10 * acc + v) (d # ds)))"

definition max_str_digits :: int where
  "max_str_digits = 4300"

definition py_digits :: "string \<Rightarrow> int option" where
  "py_digits s =
     (case s of
        [] \<Rightarrow> None
      | c # cs \<Rightarrow>
          (case digit_val c of
             None \<Rightarrow> None
           | Some v \<Rightarrow>
               (case digits_from v cs of
                  None \<Rightarrow> None
                | Some n \<Rightarrow>
                    if max_str_digits < len (filter (\<lambda>x. digit_val x \<noteq> None) s) then None
                    else Some n)))"

definition py_int :: "string \<Rightarrow> int option" where
  "py_int s =
     (case int_strip s of
        [] \<Rightarrow> None
      | c # cs \<Rightarrow>
          if c = CHR ''-'' then map_option (\<lambda>n. - n) (py_digits cs)
          else if c = CHR ''+'' then py_digits cs
          else py_digits (c # cs))"

text \<open>
  \<open>str(n)\<close> for an integer: the decimal digits, after a minus sign when \<open>n\<close> is negative.
\<close>

definition digit_char :: "int \<Rightarrow> char" where
  "digit_char d = ''0123456789abcdef'' ! nat (d mod 16)"

function str_digits :: "int \<Rightarrow> string" where
  "str_digits n =
     (if n < 10 then [digit_char n] else str_digits (n div 10) @ [digit_char (n mod 10)])"
  by pat_completeness auto
termination
  by (relation "measure nat") auto

definition str_int :: "int \<Rightarrow> string" where
  "str_int i = (if i < 0 then CHR ''-'' # str_digits (- i) else str_digits i)"

text \<open>
  \<open>repr(s)\<close> for a string below 256 and \<open>str(l)\<close> for a list of strings. The quote is the
  single quote unless the string holds a single quote and no double quote; the quote and
  the backslash are escaped, tab, line feed and carriage return have their letter, and a
  code point that is not printable is written in hexadecimal.
\<close>

definition isprintable :: "char \<Rightarrow> bool" where
  "isprintable c = ((32 \<le> ord c \<and> ord c < 127) \<or> (161 \<le> ord c \<and> ord c \<noteq> 173))"

definition repr_char :: "char \<Rightarrow> char \<Rightarrow> string" where
  "repr_char q c =
     (if c = q \<or> c = CHR 0x5C then [CHR 0x5C, c]
      else if c = CHR 0x09 then [CHR 0x5C, CHR ''t'']
      else if c = CHR 0x0A then [CHR 0x5C, CHR ''n'']
      else if c = CHR 0x0D then [CHR 0x5C, CHR ''r'']
      else if isprintable c then [c]
      else [CHR 0x5C, CHR ''x'', digit_char (ord c div 16), digit_char (ord c mod 16)])"

definition repr_str :: "string \<Rightarrow> string" where
  "repr_str s =
     (let q = (if CHR 0x27 \<in> set s \<and> CHR 0x22 \<notin> set s then CHR 0x22 else CHR 0x27)
      in [q] @ concat (map (repr_char q) s) @ [q])"

fun join :: "string \<Rightarrow> string list \<Rightarrow> string" where
  "join sep [] = []"
| "join sep [x] = x"
| "join sep (x # y # ys) = x @ sep @ join sep (y # ys)"

definition str_list :: "string list \<Rightarrow> string" where
  "str_list l = ''['' @ join '', '' (map repr_str l) @ '']''"

text \<open>
  The rows of \<open>csv.DictReader\<close>. A value of such a row is a field, \<open>None\<close> (a field the
  record is too short for) or the list of the fields beyond the last field name, which is
  stored under the key \<open>None\<close>. A dictionary keeps its keys in the order of their first
  insertion.
\<close>

datatype pyval = PStr string | PNone | PList "string list"

type_synonym pydict = "(string option \<times> pyval) list"

fun dict_set :: "pydict \<Rightarrow> string option \<Rightarrow> pyval \<Rightarrow> pydict" where
  "dict_set [] k v = [(k, v)]"
| "dict_set ((k', v') # d) k v =
     (if k' = k then (k', v) # d else (k', v') # dict_set d k v)"

definition dict_keys :: "pydict \<Rightarrow> string option list" where
  "dict_keys d = map fst d"

text \<open>
  \<open>DictReader.__next__\<close> on a record that is not empty: \<open>dict(zip(fieldnames, row))\<close>,
  then the surplus fields under \<open>restkey = None\<close>, or \<open>restval = None\<close> for every field
  name the record does not reach.
\<close>

definition dict_row :: "string list \<Rightarrow> string list \<Rightarrow> pydict" where
  "dict_row fieldnames row =
     (let d = fold (\<lambda>(k, v) d. dict_set d (Some k) (PStr v)) (zip fieldnames row) [];
          lf = length fieldnames;
          lr = length row
      in if lf < lr then dict_set d None (PList (drop lf row))
         else if lf > lr then fold (\<lambda>k d. dict_set d (Some k) PNone) (drop lr fieldnames) d
         else d)"

text \<open>
  \<open>list(csv.DictReader(infile))\<close>: the first record gives the field names, empty records
  are skipped.
\<close>

definition dict_reader :: "csv \<Rightarrow> pydict list" where
  "dict_reader f =
     (case f of
        [] \<Rightarrow> []
      | fieldnames # records \<Rightarrow> map (dict_row fieldnames) (filter (\<lambda>r. r \<noteq> []) records))"

text \<open>\<open>row['CPU']\<close>, and \<open>int(row['CPU'])\<close>, the key of the sort.\<close>

definition cpu_of :: "pydict \<Rightarrow> py_error + pyval" where
  "cpu_of d = (case map_of d (Some ''CPU'') of None \<Rightarrow> Inl KeyError | Some v \<Rightarrow> Inr v)"

fun int_of_val :: "pyval \<Rightarrow> py_error + int" where
  "int_of_val (PStr s) = (case py_int s of None \<Rightarrow> Inl ValueError | Some n \<Rightarrow> Inr n)"
| "int_of_val PNone = Inl TypeError"
| "int_of_val (PList l) = Inl TypeError"

definition sort_key_of :: "pydict \<Rightarrow> py_error + int" where
  "sort_key_of d = (case cpu_of d of Inl e \<Rightarrow> Inl e | Inr v \<Rightarrow> int_of_val v)"

text \<open>Evaluating a function on every element of a list, up to the first exception.\<close>

fun collect :: "('a \<Rightarrow> py_error + 'b) \<Rightarrow> 'a list \<Rightarrow> py_error + 'b list" where
  "collect g [] = Inr []"
| "collect g (x # xs) =
     (case g x of
        Inl e \<Rightarrow> Inl e
      | Inr y \<Rightarrow> (case collect g xs of Inl e \<Rightarrow> Inl e | Inr ys \<Rightarrow> Inr (y # ys)))"

text \<open>
  The three list expressions of the function: the rows whose CPU is \<open>'all'\<close>, then the
  other rows in the stable order of \<open>sorted\<close> by the integer of their CPU.
\<close>

definition sorted_rows :: "pydict list \<Rightarrow> py_error + pydict list" where
  "sorted_rows rows =
     (case collect cpu_of rows of
        Inl e \<Rightarrow> Inl e
      | Inr cpus \<Rightarrow>
          (let all_row = filter (\<lambda>row. cpu_of row = Inr (PStr ''all'')) rows;
               other_rows = filter (\<lambda>row. cpu_of row \<noteq> Inr (PStr ''all'')) rows
           in case collect sort_key_of other_rows of
                Inl e \<Rightarrow> Inl e
              | Inr keys \<Rightarrow> Inr (all_row @ map snd (sort_key fst (zip keys other_rows)))))"

text \<open>
  \<open>csv.DictWriter\<close>. A value is written as \<open>''\<close> for \<open>None\<close> and through \<open>str\<close> for a
  list. \<open>writeheader\<close> writes the field names themselves. \<open>writerows\<close> writes row after
  row and raises ValueError at the first row that has a key outside the field names; the
  rows before it are in the file by then.
\<close>

fun cell :: "pyval \<Rightarrow> string" where
  "cell (PStr s) = s"
| "cell PNone = []"
| "cell (PList l) = str_list l"

definition key_cell :: "string option \<Rightarrow> string" where
  "key_cell k = (case k of None \<Rightarrow> [] | Some s \<Rightarrow> s)"

definition dict_to_list :: "string option list \<Rightarrow> pydict \<Rightarrow> py_error + string list" where
  "dict_to_list fieldnames d =
     (if \<exists>k \<in> set (dict_keys d). k \<notin> set fieldnames then Inl ValueError
      else Inr (map (\<lambda>k. case map_of d k of None \<Rightarrow> [] | Some v \<Rightarrow> cell v) fieldnames))"

fun writerows :: "string option list \<Rightarrow> pydict list \<Rightarrow> csv \<Rightarrow> outcome \<times> csv" where
  "writerows fieldnames [] f = (Returned, f)"
| "writerows fieldnames (d # ds) f =
     (case dict_to_list fieldnames d of
        Inl e \<Rightarrow> (SysExit 1, f)
      | Inr r \<Rightarrow> writerows fieldnames ds (f @ [r]))"

text \<open>
  The file is read (with \<open>newline=''\<close>) and sorted first; an exception there leaves the
  file as it was. Opening the file for writing empties it, and \<open>sorted_rows[0]\<close> is
  evaluated after that.
\<close>

definition sort_cpu_data :: "csv \<Rightarrow> outcome \<times> csv" where
  "sort_cpu_data f =
     (case csv_reader f of
        Inl e \<Rightarrow> (SysExit 1, f)
      | Inr records \<Rightarrow>
          (case sorted_rows (dict_reader records) of
             Inl e \<Rightarrow> (SysExit 1, f)
           | Inr rows \<Rightarrow>
               (case item rows 0 of
                  None \<Rightarrow> (SysExit 1, [])
                | Some first \<Rightarrow>
                    (let fieldnames = dict_keys first
                     in writerows fieldnames rows [map key_cell fieldnames]))))"

subsection \<open>process_file\<close>

text \<open>
  \<open>datetime.strptime(s, '%H:%M:%S')\<close>. The format is matched as hour, colon, minute,
  colon, second, each of one or two decimal digits, and the whole string has to be used
  up; the hour is at most 23, the minute at most 59, and a second above 59 is refused
  when the datetime is built. All results lie on the same day, so the value is kept as
  the number of seconds since midnight; ValueError is \<open>None\<close>.
\<close>

fun split_colon :: "string \<Rightarrow> string \<Rightarrow> string list" where
  "split_colon cur [] = [rev cur]"
| "split_colon cur (c # cs) =
     (if c = CHR '':'' then rev cur # split_colon [] cs else split_colon (c # cur) cs)"

definition two_digits :: "string \<Rightarrow> int option" where
  "two_digits s =
     (case s of
        [a] \<Rightarrow> digit_val a
      | [a, b] \<Rightarrow>
          (case digit_val a of
             None \<Rightarrow> None
           | Some x \<Rightarrow> (case digit_val b of None \<Rightarrow> None | Some y \<Rightarrow> Some (10 * x + y)))
      | _ \<Rightarrow> None)"

definition strptime :: "string \<Rightarrow> int option" where
  "strptime s =
     (case split_colon [] s of
        [hs, ms, ss] \<Rightarrow>
          (case two_digits hs of
             None \<Rightarrow> None
           | Some h \<Rightarrow>
               (case two_digits ms of
                  None \<Rightarrow> None
                | Some m \<Rightarrow>
                    (case two_digits ss of
                       None \<Rightarrow> None
                     | Some sec \<Rightarrow>
                         if h \<le> 23 \<and> m \<le> 59 \<and> sec \<le> 59
                         then Some (h * 3600 + m * 60 + sec) else None)))
      | _ \<Rightarrow> None)"

text \<open>
  \<open>grouped_data\<close>: a dictionary from the CPU field to its start time and its rows, in
  the order in which the keys were inserted.
\<close>

record bucket =
  start_time :: int
  rows :: "string list list"

type_synonym grouped = "(string \<times> bucket) list"

text \<open>
  One turn of the loop over the data rows. \<open>int(time_diff)\<close> is the exact difference in
  seconds, since both times are whole seconds of one day.
\<close>

definition group_row :: "grouped \<Rightarrow> string list \<Rightarrow> py_error + grouped" where
  "group_row gd row =
     (case item row 1 of
        None \<Rightarrow> Inl IndexError
      | Some cpu \<Rightarrow>
     (case item row 0 of
        None \<Rightarrow> Inl IndexError
      | Some time_str \<Rightarrow>
     (case strptime time_str of
        None \<Rightarrow> Inl ValueError
      | Some time_obj \<Rightarrow>
          (let gd1 = (if map_of gd cpu = None
                      then gd @ [(cpu, \<lparr>start_time = time_obj, rows = []\<rparr>)] else gd)
           in case map_of gd1 cpu of
                None \<Rightarrow> Inl KeyError
              | Some b \<Rightarrow>
                  (let time_diff = time_obj - start_time b;
                       row1 = row[0 := str_int time_diff]
                   in Inr (map (\<lambda>(c, b1). if c = cpu then (c, b1\<lparr>rows := rows b1 @ [row1]\<rparr>)
                                           else (c, b1)) gd1))))))"

fun group_rows :: "grouped \<Rightarrow> csv \<Rightarrow> py_error + grouped" where
  "group_rows gd [] = Inr gd"
| "group_rows gd (row # data) =
     (case group_row gd row of Inl e \<Rightarrow> Inl e | Inr gd1 \<Rightarrow> group_rows gd1 data)"

text \<open>
  The file is read with \<open>newline=''\<close>, whole, before it is written.
  \<open>next(reader)\<close> raises StopIteration on an empty file and \<open>header[0] = 'time'\<close> raises
  IndexError on an empty header. The file is written after the loop: the header, then
  the rows of every bucket, bucket after bucket.
\<close>

definition process_file :: "csv \<Rightarrow> outcome \<times> csv" where
  "process_file f =
     (case csv_reader f of
        Inl e \<Rightarrow> (SysExit 1, f)
      | Inr records \<Rightarrow>
          (case records of
             [] \<Rightarrow> (SysExit 1, f)
           | hdr # data \<Rightarrow>
               (case hdr of
                  [] \<Rightarrow> (SysExit 1, f)
                | h0 # hs \<Rightarrow>
                    (case group_rows [] data of
                       Inl e \<Rightarrow> (SysExit 1, f)
                     | Inr gd \<Rightarrow>
                         (Returned, (''time'' # hs) # concat (map (\<lambda>(c, b). rows b) gd))))))"

subsection \<open>The main program\<close>

text \<open>
  The four calls on one path, after the capture. \<open>old\<close> is what the CSV path held before
  the run. The result is how the run ended and what the path holds then.
\<close>

definition after :: "outcome \<times> csv \<Rightarrow> (csv \<Rightarrow> outcome \<times> csv) \<Rightarrow> outcome \<times> csv" where
  "after r stage = (case r of (Returned, f) \<Rightarrow> stage f | (SysExit n, f) \<Rightarrow> (SysExit n, f))"

definition main :: "string list \<Rightarrow> csv \<Rightarrow> outcome \<times> csv" where
  "main lines old =
     after (after (after (convert_to_csv lines old) remove_cpu_rows) sort_cpu_data) process_file"

subsection \<open>Vocabulary of the specification\<close>

text \<open>
  The definitions of this subsection are not part of the program. They are the terms in
  which the theorems describe it: what a stage computes, written as one expression, and
  proved below to be what the model of the stage returns.
\<close>

text \<open>
  A qualifying line is a line that is not empty once stripped and whose first token
  begins with a digit; its tokens are the whitespace-separated parts of the line.
\<close>

definition qualifying :: "string \<Rightarrow> bool" where
  "qualifying raw = (case strip raw of [] \<Rightarrow> False | c # cs \<Rightarrow> isdigit c)"

definition tokens :: "string \<Rightarrow> string list" where
  "tokens raw = split (strip raw)"

text \<open>
  The records the parser writes, the tokens of the qualifying lines in the order of the
  input, and the records the normalizer leaves of them.
\<close>

definition parsed :: "string list \<Rightarrow> csv" where
  "parsed lines = map tokens (filter qualifying lines)"

definition records :: "string list \<Rightarrow> csv" where
  "records lines = filter (\<lambda>r. \<not> is_cpu_row r) (map tokens (filter qualifying lines))"

text \<open>
  The series of a record: the aggregate series, whose identifier is \<open>all\<close>, or a
  numbered one, whose identifier \<open>int()\<close> accepts; \<open>cpu_number\<close> is that integer.
\<close>

definition is_all :: "string list \<Rightarrow> bool" where
  "is_all row = (item row 1 = Some ''all'')"

definition numbered :: "string list \<Rightarrow> bool" where
  "numbered row = (case item row 1 of None \<Rightarrow> False | Some c \<Rightarrow> py_int c \<noteq> None)"

definition cpu_number :: "string list \<Rightarrow> int" where
  "cpu_number row =
     (case item row 1 of None \<Rightarrow> 0 | Some c \<Rightarrow> (case py_int c of None \<Rightarrow> 0 | Some n \<Rightarrow> n))"

text \<open>
  The order \<open>sort_cpu_data\<close> gives the records: the aggregate rows, then the others
  sorted by their number, rows of equal number in their order of arrival.
\<close>

definition sorted_records :: "csv \<Rightarrow> csv" where
  "sorted_records data = filter is_all data @ sort_key cpu_number (filter (\<lambda>r. \<not> is_all r) data)"

text \<open>
  What \<open>sort_cpu_data\<close> writes for a record: its first twelve fields, empty fields
  up to the twelfth, and, when the header has the thirteenth column (the key \<open>None\<close>),
  the text of the list of the surplus fields. \<open>fields12\<close> are the values of the twelve
  named keys in the dictionary of the record.
\<close>

definition fields12 :: "string list \<Rightarrow> pyval list" where
  "fields12 row = map PStr (take 12 row) @ replicate (12 - length row) PNone"

definition widen :: "bool \<Rightarrow> string list \<Rightarrow> string list" where
  "widen extra row =
     take 12 row @ replicate (12 - length row) [] @
     (if extra then [if 12 < length row then str_list (drop 12 row) else []] else [])"

text \<open>
  The series identifier (second field) and the time (first field) of a row, the
  seconds of its time, and whether \<open>process_file\<close> accepts the row.
\<close>

definition cpu_field :: "string list \<Rightarrow> string" where
  "cpu_field row = (case item row 1 of None \<Rightarrow> [] | Some c \<Rightarrow> c)"

definition time_field :: "string list \<Rightarrow> string" where
  "time_field row = (case item row 0 of None \<Rightarrow> [] | Some t \<Rightarrow> t)"

definition seconds :: "string list \<Rightarrow> int" where
  "seconds row = (case strptime (time_field row) of None \<Rightarrow> 0 | Some t \<Rightarrow> t)"

definition timed :: "string list \<Rightarrow> bool" where
  "timed row = (2 \<le> length row \<and> strptime (time_field row) \<noteq> None)"

text \<open>
  The rows of one series in their order, the series identifiers of a table in the order
  of their first appearance, and the table \<open>process_file\<close> builds: series after
  series, every time replaced by the seconds since the first row of the series.
\<close>

definition series :: "string \<Rightarrow> csv \<Rightarrow> csv" where
  "series c data = filter (\<lambda>r. cpu_field r = c) data"

definition first_seen :: "'a list \<Rightarrow> 'a list" where
  "first_seen xs = rev (remdups (rev xs))"

definition start_of :: "csv \<Rightarrow> int" where
  "start_of rs = (case rs of [] \<Rightarrow> 0 | r0 # _ \<Rightarrow> seconds r0)"

definition elapsed_rows :: "csv \<Rightarrow> csv" where
  "elapsed_rows rs = map (\<lambda>r. r[0 := str_int (seconds r - start_of rs)]) rs"

definition grouped_table :: "csv \<Rightarrow> csv" where
  "grouped_table data =
     concat (map (\<lambda>c. elapsed_rows (series c data)) (first_seen (map cpu_field data)))"

text \<open>
  The dictionary \<open>grouped_data\<close> after the rows \<open>seen\<close>.
\<close>

definition buckets :: "csv \<Rightarrow> grouped" where
  "buckets seen =
     map (\<lambda>c. (c, \<lparr>start_time = start_of (series c seen), rows = elapsed_rows (series c seen)\<rparr>))
       (first_seen (map cpu_field seen))"

text \<open>
  An example run: two samples of the aggregate series and of CPU 0, with an empty line and
  a repeated header line between them, and the table the run leaves.
\<close>

definition example_log :: "string list" where
  "example_log =
     [''08:00:01 all 5.0 0 1.0 0 0 0 0 0 0 93.0'',
      ''08:00:01 0 4.0 0 1.0 0 0 0 0 0 0 94.0'',
      '''',
      ''08:00:02 CPU %usr %nice %sys %iowait %irq %soft %steal %guest %gnice %idle'',
      ''08:00:02 all 6.0 0 1.0 0 0 0 0 0 0 93.0'',
      ''08:00:02 0 5.0 0 1.0 0 0 0 0 0 0 94.0'']"

definition example_table :: csv where
  "example_table =
     [header,
      [''0'', ''all'', ''5.0'', ''0'', ''1.0'', ''0'', ''0'', ''0'', ''0'', ''0'', ''0'', ''93.0''],
      [''1'', ''all'', ''6.0'', ''0'', ''1.0'', ''0'', ''0'', ''0'', ''0'', ''0'', ''0'', ''93.0''],
      [''0'', ''0'', ''4.0'', ''0'', ''1.0'', ''0'', ''0'', ''0'', ''0'', ''0'', ''0'', ''94.0''],
      [''1'', ''0'', ''5.0'', ''0'', ''1.0'', ''0'', ''0'', ''0'', ''0'', ''0'', ''0'', ''94.0'']]"

text \<open>
  The order of the series identifiers: \<open>all\<close> comes before every other identifier, and
  two other identifiers are compared by their integers.
\<close>

definition ident_number :: "string \<Rightarrow> int" where
  "ident_number c = (case py_int c of None \<Rightarrow> 0 | Some n \<Rightarrow> n)"

definition ident_le :: "string \<Rightarrow> string \<Rightarrow> bool" where
  "ident_le c d = (c = ''all'' \<or> (d \<noteq> ''all'' \<and> ident_number c \<le> ident_number d))"

section \<open>The parser\<close>

lemma split_from_nonempty: "cur \<noteq> [] \<Longrightarrow> split_from cur s \<noteq> []"
  by (induction s arbitrary: cur) auto

lemma isdigit_not_space: "isdigit c \<Longrightarrow> \<not> isspace c"
  by (auto simp: isdigit_def isspace_def)

lemma isdigit_not_C: "isdigit c \<Longrightarrow> c \<noteq> CHR ''C''"
  by (auto simp: isdigit_def ord_def)

lemma split_digit_nonempty: "isdigit c \<Longrightarrow> split (c # cs) \<noteq> []"
  by (simp add: split_def isdigit_not_space split_from_nonempty)

lemma convert_line_eq:
  "convert_line raw = Inr (if qualifying raw then Some (tokens raw) else None)"
proof (cases "strip raw")
  case Nil
  then show ?thesis by (simp add: convert_line_def qualifying_def)
next
  case (Cons c cs)
  show ?thesis
  proof (cases "isdigit c")
    case True
    then have "split (c # cs) \<noteq> []" by (rule split_digit_nonempty)
    then obtain t ts where sp: "split (c # cs) = t # ts" by (cases "split (c # cs)") auto
    from True have "\<not> startswith (c # cs) ''CPU''"
      using isdigit_not_C by (auto simp: startswith_def)
    with True Cons sp show ?thesis
      by (simp add: convert_line_def qualifying_def tokens_def item_def Let_def)
  next
    case False
    with Cons show ?thesis
      by (simp add: convert_line_def qualifying_def item_def Let_def)
  qed
qed

lemma convert_lines_eq: "convert_lines ls = Inr (map tokens (filter qualifying ls))"
  by (induction ls) (simp_all add: convert_line_eq)

lemma convert_to_csv_eq:
  "convert_to_csv ls old = (Returned, header # map tokens (filter qualifying ls))"
  by (simp add: convert_to_csv_def convert_lines_eq)

lemma tokens_nonempty: "qualifying raw \<Longrightarrow> tokens raw \<noteq> []"
  by (auto simp: qualifying_def tokens_def split_digit_nonempty split: list.splits)

text \<open>
  A token holds no whitespace: on the records the parser writes, the test of
  \<open>remove_cpu_rows\<close> compares the fields themselves.
\<close>

lemma split_from_plain:
  "\<forall>c \<in> set cur. \<not> isspace c \<Longrightarrow> t \<in> set (split_from cur s) \<Longrightarrow> \<forall>c \<in> set t. \<not> isspace c"
proof (induction s arbitrary: cur)
  case Nil
  then show ?case by (auto split: if_splits)
next
  case (Cons a s)
  show ?case
  proof (cases "isspace a")
    case True
    with Cons.prems have "t = rev cur \<or> t \<in> set (split_from [] s)"
      by (auto split: if_splits)
    then show ?thesis
    proof
      assume "t = rev cur"
      with Cons.prems(1) show ?thesis by simp
    next
      assume "t \<in> set (split_from [] s)"
      with Cons.IH [of "[]"] show ?thesis by simp
    qed
  next
    case False
    with Cons.prems have "t \<in> set (split_from (a # cur) s)" by simp
    moreover from False Cons.prems(1) have "\<forall>c \<in> set (a # cur). \<not> isspace c" by simp
    ultimately show ?thesis using Cons.IH [of "a # cur"] by blast
  qed
qed

lemma tokens_plain: "t \<in> set (tokens l) \<Longrightarrow> \<forall>c \<in> set t. \<not> isspace c"
  using split_from_plain [of "[]" t "strip l"] by (simp add: tokens_def split_def)

lemma dropWhile_none: "\<forall>c \<in> set t. \<not> P c \<Longrightarrow> dropWhile P t = t"
  by (cases t) auto

lemma strip_plain: "\<forall>c \<in> set t. \<not> isspace c \<Longrightarrow> strip t = t"
  by (simp add: strip_def dropWhile_none)

lemma split_from_word:
  "\<forall>c \<in> set s. \<not> isspace c \<Longrightarrow>
   split_from cur s = (if cur = [] \<and> s = [] then [] else [rev cur @ s])"
  by (induction s arbitrary: cur) auto

lemma parsed_row_test:
  assumes "r = tokens l"
  shows "is_cpu_row r = (item r 1 = Some ''CPU'' \<and> item r 0 \<noteq> Some ''time'')"
proof (cases "1 < length r")
  case True
  then have pos: "r \<noteq> []" by (cases r) simp_all
  with True have "r ! 1 \<in> set r" "r ! 0 \<in> set r" by (simp_all only: nth_mem)
  with assms have "strip (r ! 1) = r ! 1" "strip (r ! 0) = r ! 0"
    by (simp_all add: strip_plain tokens_plain)
  with True pos show ?thesis by (simp add: is_cpu_row_def item_def)
next
  case False
  then show ?thesis by (simp add: is_cpu_row_def item_def)
qed



section \<open>The normalizer\<close>

lemma filter_lines_eq: "filter_lines f = filter (\<lambda>l. \<not> is_cpu_row l) f"
  by (induction f) simp_all

lemma header_not_cpu_row: "\<not> is_cpu_row header"
  by (simp add: is_cpu_row_def header_def strip_def isspace_def ord_def)

lemma universal_newlines_plain: "CHR 0x0D \<notin> set s \<Longrightarrow> universal_newlines s = s"
  by (induction s rule: universal_newlines.induct) auto

lemma universal_newlines_no_cr: "CHR 0x0D \<notin> set (universal_newlines s)"
  by (induction s rule: universal_newlines.induct) auto

lemma universal_newlines_idem:
  "universal_newlines (universal_newlines s) = universal_newlines s"
  by (rule universal_newlines_plain [OF universal_newlines_no_cr])

lemma text_mode_idem: "text_mode (text_mode f) = text_mode f"
  by (simp add: text_mode_def universal_newlines_idem)

lemma text_mode_filter: "text_mode g = g \<Longrightarrow> text_mode (filter P g) = filter P g"
  by (induction g) (auto simp: text_mode_def)

lemma over_limit_filter: "\<not> over_limit f \<Longrightarrow> \<not> over_limit (filter P f)"
  by (auto simp: over_limit_def)

lemma over_limit_header: "over_limit (header # data) = over_limit data"
  by (simp add: over_limit_def header_def len_def field_limit_def)

lemma text_mode_header: "text_mode (header # data) = header # text_mode data"
  by (simp add: text_mode_def header_def)

lemma token_no_cr: "t \<in> set (tokens l) \<Longrightarrow> CHR 0x0D \<notin> set t"
proof
  assume "t \<in> set (tokens l)" "CHR 0x0D \<in> set t"
  with tokens_plain [of t l] have "\<not> isspace (CHR 0x0D)" by blast
  then show False by (simp add: isspace_def ord_def)
qed

lemma text_mode_parsed: "text_mode (parsed lines) = parsed lines"
proof -
  have "map universal_newlines (tokens l) = tokens l" for l
    by (rule map_idI) (simp add: universal_newlines_plain token_no_cr)
  then show ?thesis by (simp add: text_mode_def parsed_def)
qed

lemma records_parsed: "records lines = filter (\<lambda>l. \<not> is_cpu_row l) (parsed lines)"
  by (simp add: records_def parsed_def)

text \<open>
  Outside the pipeline the text mode shows: a carriage return inside a field comes back
  as a line feed.
\<close>

lemma text_mode_example:
  "remove_cpu_rows [[''time'', ''CPU''], [[CHR ''a'', CHR 0x0D, CHR ''b''], ''x'']] =
     (Returned, [[''time'', ''CPU''], [[CHR ''a'', CHR 0x0A, CHR ''b''], ''x'']])"
  by code_simp

lemma remove_cpu_rows_parsed:
  "remove_cpu_rows (header # parsed lines) =
     (if over_limit (parsed lines) then (SysExit 1, header # parsed lines)
      else (Returned, header # records lines))"
  by (simp add: remove_cpu_rows_def csv_reader_def text_mode_header text_mode_parsed
      over_limit_header filter_lines_eq header_not_cpu_row records_parsed)

text \<open>
  Claim C5: \<open>remove_cpu_rows\<close> is idempotent. Running it on the file it has left gives
  the same outcome and leaves the same file: after a run that returned, the second run
  returns and changes nothing; after a run that stopped at a field beyond the limit of
  the reader, the file is untouched and the second run stops in the same way.
\<close>

theorem remove_cpu_rows_idempotent:
  "remove_cpu_rows (snd (remove_cpu_rows f)) = remove_cpu_rows f"
proof (cases "over_limit (text_mode f)")
  case True
  then show ?thesis by (simp add: remove_cpu_rows_def csv_reader_def)
next
  case False
  let ?g = "filter (\<lambda>l. \<not> is_cpu_row l) (text_mode f)"
  have "text_mode ?g = ?g" by (rule text_mode_filter [OF text_mode_idem])
  moreover from False have "\<not> over_limit ?g" by (rule over_limit_filter)
  ultimately show ?thesis
    using False by (simp add: remove_cpu_rows_def csv_reader_def filter_lines_eq)
qed

text \<open>
  Claim C6: on the file the parser has written, \<open>remove_cpu_rows\<close> removes a row if and
  only if its series identifier (the second field) is the token \<open>CPU\<close> and its time (the
  first field) is not \<open>time\<close>; every other row, the header among them, stays in its
  place. The stage returns unless a field is longer than the reader accepts, and then it
  exits with the file untouched.
\<close>

theorem remove_cpu_rows_rule:
  "remove_cpu_rows (snd (convert_to_csv lines old)) =
     (if over_limit (parsed lines) then (SysExit 1, snd (convert_to_csv lines old))
      else (Returned,
            filter (\<lambda>line. \<not> (item line 1 = Some ''CPU'' \<and> item line 0 \<noteq> Some ''time''))
              (snd (convert_to_csv lines old))))"
proof -
  have w: "snd (convert_to_csv lines old) = header # parsed lines"
    by (simp add: convert_to_csv_eq parsed_def)
  have "filter (\<lambda>line. \<not> (item line 1 = Some ''CPU'' \<and> item line 0 \<noteq> Some ''time''))
          (parsed lines) = filter (\<lambda>line. \<not> is_cpu_row line) (parsed lines)"
    by (rule filter_cong) (auto simp: parsed_def parsed_row_test)
  moreover have "item header 0 = Some ''time''" by (simp add: item_def header_def)
  ultimately have "filter (\<lambda>line. \<not> (item line 1 = Some ''CPU'' \<and> item line 0 \<noteq> Some ''time''))
          (header # parsed lines) = header # records lines"
    by (simp add: records_def parsed_def)
  then show ?thesis unfolding w by (simp only: remove_cpu_rows_parsed)
qed

theorem remove_cpu_rows_rule_witness:
  "remove_cpu_rows
     (snd (convert_to_csv [''08:00:00 CPU %usr'', ''08:00:01 all 1.0'', ''08:00:01 0 2.0''] [])) =
     (Returned, [header, [''08:00:01'', ''all'', ''1.0''], [''08:00:01'', ''0'', ''2.0'']])"
  by (rule trans [OF remove_cpu_rows_rule]) code_simp

section \<open>Runs that end in an exit\<close>

text \<open>
  Claim C9: when no line of the input qualifies, the run ends with \<open>sys.exit(1)\<close>, and
  the CSV path holds an empty file: not even a header row.
\<close>

theorem empty_input_exits:
  "\<forall>l \<in> set lines. \<not> qualifying l \<Longrightarrow> main lines old = (SysExit 1, [])"
proof -
  assume "\<forall>l \<in> set lines. \<not> qualifying l"
  then have "filter qualifying lines = []" by (simp add: filter_empty_conv)
  then have e: "parsed lines = []" "records lines = []"
    by (simp_all add: parsed_def records_def)
  have small: "\<not> over_limit []" by (simp add: over_limit_def)
  have "convert_to_csv lines old = (Returned, header # parsed lines)"
    by (simp add: convert_to_csv_eq parsed_def)
  moreover from remove_cpu_rows_parsed [of lines]
  have "remove_cpu_rows [header] = (Returned, [header])" by (simp add: e small)
  ultimately show ?thesis
    by (simp add: main_def after_def e small over_limit_header
        sort_cpu_data_def csv_reader_def dict_reader_def sorted_rows_def item_def)
qed

theorem empty_input_exits_witness:
  "\<not> qualifying ''Linux 6.1 (host)'' \<and> \<not> qualifying '' '' \<and>
   \<not> qualifying ''Average: all 1.0 2.0'' \<and>
   main [''Linux 6.1 (host)'', '' '', ''Average: all 1.0 2.0''] [[''stale'']] = (SysExit 1, [])"
proof -
  have h: "\<forall>l \<in> set [''Linux 6.1 (host)'', '' '', ''Average: all 1.0 2.0'']. \<not> qualifying l"
    by (simp add: qualifying_def strip_def isspace_def isdigit_def ord_def)
  from empty_input_exits [OF h] h show ?thesis by simp
qed

section \<open>The stages in closed form\<close>

lemma dict_set_new: "k \<notin> fst ` set d \<Longrightarrow> dict_set d k v = d @ [(k, v)]"
  by (induction d) auto

lemma fold_dict_set_zip:
  "distinct ks \<Longrightarrow> \<forall>k \<in> set ks. Some k \<notin> fst ` set d \<Longrightarrow>
   fold (\<lambda>(k, v) d. dict_set d (Some k) (PStr v)) (zip ks vs) d =
     d @ map (\<lambda>(k, v). (Some k, PStr v)) (zip ks vs)"
proof (induction ks arbitrary: vs d)
  case Nil
  then show ?case by simp
next
  case (Cons k ks)
  show ?case
  proof (cases vs)
    case Nil
    then show ?thesis by simp
  next
    case (Cons v vs')
    have new: "dict_set d (Some k) (PStr v) = d @ [(Some k, PStr v)]"
      using Cons.prems(2) by (simp add: dict_set_new)
    have pre: "\<forall>k' \<in> set ks. Some k' \<notin> fst ` set (d @ [(Some k, PStr v)])"
      using Cons.prems by auto
    from Cons.prems(1) have "distinct ks" by simp
    from Cons.IH [OF this pre] new Cons show ?thesis by simp
  qed
qed

lemma fold_dict_set_none:
  "distinct ks \<Longrightarrow> \<forall>k \<in> set ks. Some k \<notin> fst ` set d \<Longrightarrow>
   fold (\<lambda>k d. dict_set d (Some k) PNone) ks d = d @ map (\<lambda>k. (Some k, PNone)) ks"
proof (induction ks arbitrary: d)
  case Nil
  then show ?case by simp
next
  case (Cons k ks)
  have new: "dict_set d (Some k) PNone = d @ [(Some k, PNone)]"
    using Cons.prems(2) by (simp add: dict_set_new)
  have pre: "\<forall>k' \<in> set ks. Some k' \<notin> fst ` set (d @ [(Some k, PNone)])"
    using Cons.prems by auto
  from Cons.prems(1) have "distinct ks" by simp
  from Cons.IH [OF this pre] new show ?case by simp
qed

lemma keys_zip_fields:
  "fst ` set (map (\<lambda>(k, v). (Some k, PStr v)) (zip ks vs)) = Some ` set (take (length vs) ks)"
proof -
  have a: "map fst (zip ks vs) = take (length vs) ks"
    by (simp add: map_fst_zip_take min_def)
  have "map fst (map (\<lambda>(k, v). (Some k, PStr v)) (zip ks vs)) = map Some (map fst (zip ks vs))"
    by (simp add: case_prod_beta comp_def)
  with a have "map fst (map (\<lambda>(k, v). (Some k, PStr v)) (zip ks vs)) = map Some (take (length vs) ks)"
    by simp
  then have "set (map fst (map (\<lambda>(k, v). (Some k, PStr v)) (zip ks vs))) = set (map Some (take (length vs) ks))"
    by simp
  then show ?thesis by (simp only: set_map)
qed

lemma dict_row_eq:
  assumes "distinct fns"
  shows "dict_row fns row =
     map (\<lambda>(k, v). (Some k, PStr v)) (zip fns row) @
     (if length fns < length row then [(None, PList (drop (length fns) row))]
      else map (\<lambda>k. (Some k, PNone)) (drop (length row) fns))"
proof -
  let ?d = "map (\<lambda>(k, v). (Some k, PStr v)) (zip fns row)"
  have d: "fold (\<lambda>(k, v) d. dict_set d (Some k) (PStr v)) (zip fns row) [] = ?d"
    using fold_dict_set_zip [OF assms, of "[]" row] by simp
  have keys: "fst ` set ?d = Some ` set (take (length row) fns)" by (rule keys_zip_fields)
  show ?thesis
  proof (cases "length fns < length row")
    case True
    have "None \<notin> fst ` set ?d" unfolding keys by auto
    then have "dict_set ?d None (PList (drop (length fns) row)) = ?d @ [(None, PList (drop (length fns) row))]"
      by (rule dict_set_new)
    with True d show ?thesis by (simp add: dict_row_def Let_def)
  next
    case False
    have dis: "distinct (drop (length row) fns)" using assms by simp
    have "set (take (length row) fns) \<inter> set (drop (length row) fns) = {}"
      using assms by (metis append_take_drop_id distinct_append)
    then have pre: "\<forall>k \<in> set (drop (length row) fns). Some k \<notin> fst ` set ?d"
      unfolding keys by auto
    from fold_dict_set_none [OF dis pre] False d show ?thesis
      by (simp add: dict_row_def Let_def)
  qed
qed

lemma zip_form_long:
  "length fns < length row \<Longrightarrow>
   map (\<lambda>(k, v). (Some k, PStr v)) (zip fns row) =
     zip (map Some fns) (map PStr (take (length fns) row))"
proof (induction fns arbitrary: row)
  case Nil
  then show ?case by simp
next
  case (Cons k ks)
  then show ?case by (cases row) simp_all
qed

lemma zip_form_short:
  "length row \<le> length fns \<Longrightarrow>
   map (\<lambda>(k, v). (Some k, PStr v)) (zip fns row) @ map (\<lambda>k. (Some k, PNone)) (drop (length row) fns) =
     zip (map Some fns) (map PStr row @ replicate (length fns - length row) PNone)"
proof (induction fns arbitrary: row)
  case Nil
  then show ?case by simp
next
  case (Cons k ks)
  then show ?case by (cases row) (simp_all add: zip_replicate2 comp_def)
qed

lemma dict_row_zip:
  assumes "distinct fns"
  shows "dict_row fns row =
     zip (map Some fns) (map PStr (take (length fns) row) @ replicate (length fns - length row) PNone) @
     (if length fns < length row then [(None, PList (drop (length fns) row))] else [])"
proof (cases "length fns < length row")
  case True
  with dict_row_eq [OF assms, of row] zip_form_long [OF True] show ?thesis by simp
next
  case False
  then have le: "length row \<le> length fns" by simp
  with dict_row_eq [OF assms, of row] zip_form_short [OF le] False show ?thesis by simp
qed

lemma header_distinct: "distinct header"
  by (simp add: header_def)

lemma header_length: "length header = 12"
  by (simp add: header_def)

lemma fields12_length: "length (fields12 row) = 12"
  by (simp add: fields12_def)

lemma dict_row_header:
  "dict_row header row = zip (map Some header) (fields12 row) @
     (if 12 < length row then [(None, PList (drop 12 row))] else [])"
  using dict_row_zip [OF header_distinct, of row] by (simp add: header_length fields12_def)

lemma dict_keys_header:
  "dict_keys (dict_row header row) = map Some header @ (if 12 < length row then [None] else [])"
  by (simp add: dict_row_header dict_keys_def header_length fields12_length)

lemma lookup_header:
  assumes "i < 12"
  shows "map_of (dict_row header row) (Some (header ! i)) = Some (fields12 row ! i)"
proof -
  have "map_of (zip (map Some header) (fields12 row)) (map Some header ! i) = Some (fields12 row ! i)"
    by (rule map_of_zip_nth) (simp_all add: header_length fields12_length header_distinct distinct_map assms)
  then have "map_of (zip (map Some header) (fields12 row)) (Some (header ! i)) = Some (fields12 row ! i)"
    using assms by (simp add: header_length)
  then show ?thesis by (simp add: dict_row_header map_add_def)
qed

lemma lookup_rest:
  "map_of (dict_row header row) None = (if 12 < length row then Some (PList (drop 12 row)) else None)"
proof -
  have "None \<notin> set (map Some header)" by auto
  then have "map_of (zip (map Some header) (fields12 row)) None = None"
    by (simp add: header_length fields12_length del: set_map)
  then show ?thesis by (simp add: dict_row_header map_add_def)
qed

lemma fields12_nth:
  "i < 12 \<Longrightarrow> fields12 row ! i = (if i < length row then PStr (row ! i) else PNone)"
  by (simp add: fields12_def nth_append)

lemma cpu_of_header:
  "cpu_of (dict_row header row) = Inr (if 1 < length row then PStr (row ! 1) else PNone)"
proof -
  have "header ! 1 = ''CPU''" by (simp add: header_def)
  with lookup_header [of 1 row] show ?thesis by (simp add: cpu_of_def fields12_nth)
qed

lemma collect_Inr: "collect g xs = Inr ys \<longleftrightarrow> map g xs = map Inr ys"
proof (induction xs arbitrary: ys)
  case Nil
  then show ?case by auto
next
  case (Cons x xs)
  show ?case
  proof (cases "g x")
    case (Inl e)
    then show ?thesis by (cases ys) auto
  next
    case (Inr y)
    show ?thesis
    proof (cases "collect g xs")
      case (Inl e)
      with Inr Cons.IH show ?thesis by (cases ys) auto
    next
      case r: (Inr zs)
      with Inr Cons.IH [of zs] Cons.IH show ?thesis by (cases ys) auto
    qed
  qed
qed

lemma collect_total: "(\<forall>x \<in> set xs. g x = Inr (h x)) \<Longrightarrow> collect g xs = Inr (map h xs)"
  by (simp add: collect_Inr)

lemma collect_Inl: "x \<in> set xs \<Longrightarrow> g x = Inl e \<Longrightarrow> \<exists>e'. collect g xs = Inl e'"
  by (induction xs) (auto split: sum.splits)

lemma insort_key_map:
  "insort_key f (h x) (map h ys) = map h (insort_key (\<lambda>a. f (h a)) x ys)"
  by (induction ys) simp_all

lemma sort_key_map: "sort_key f (map h xs) = map h (sort_key (\<lambda>a. f (h a)) xs)"
  by (induction xs) (simp_all add: insort_key_map)

lemma sort_zip:
  "map snd (sort_key fst (zip (map k xs) (map g xs))) = map g (sort_key k xs)"
proof -
  have "zip (map k xs) (map g xs) = map (\<lambda>y. (k y, g y)) xs"
    by (induction xs) simp_all
  then show ?thesis by (simp add: sort_key_map comp_def)
qed

lemma cpu_of_all: "cpu_of (dict_row header row) = Inr (PStr ''all'') \<longleftrightarrow> is_all row"
  by (simp add: cpu_of_header is_all_def item_def)

lemma sort_key_of_numbered:
  "numbered row \<Longrightarrow> sort_key_of (dict_row header row) = Inr (cpu_number row)"
  by (auto simp: sort_key_of_def cpu_of_header numbered_def cpu_number_def item_def split: if_splits)

lemma sort_key_of_other:
  "\<not> numbered row \<Longrightarrow> \<exists>e. sort_key_of (dict_row header row) = Inl e"
  by (auto simp: sort_key_of_def cpu_of_header numbered_def item_def split: if_splits)

lemma sorted_rows_ok:
  assumes "\<forall>r \<in> set data. is_all r \<or> numbered r"
  shows "sorted_rows (map (dict_row header) data) = Inr (map (dict_row header) (sorted_records data))"
proof -
  let ?D = "dict_row header"
  let ?others = "filter (\<lambda>r. \<not> is_all r) data"
  have c1: "collect cpu_of (map ?D data) =
      Inr (map (\<lambda>d. if 1 < length d then PStr (d ! 1) else PNone) data)"
    by (simp add: collect_Inr cpu_of_header)
  have f1: "filter (\<lambda>row. cpu_of row = Inr (PStr ''all'')) (map ?D data) = map ?D (filter is_all data)"
    by (simp add: filter_map comp_def cpu_of_all)
  have f2: "filter (\<lambda>row. cpu_of row \<noteq> Inr (PStr ''all'')) (map ?D data) = map ?D ?others"
    by (simp add: filter_map comp_def cpu_of_all)
  have "\<forall>r \<in> set ?others. sort_key_of (?D r) = Inr (cpu_number r)"
    using assms by (auto simp: sort_key_of_numbered)
  then have c2: "collect sort_key_of (map ?D ?others) = Inr (map cpu_number ?others)"
    by (simp add: collect_Inr comp_def)
  show ?thesis
    unfolding sorted_rows_def c1 f1 f2 Let_def c2
    by (simp add: sort_zip sorted_records_def)
qed

lemma sorted_rows_fail:
  assumes "r \<in> set data" "\<not> is_all r" "\<not> numbered r"
  shows "\<exists>e. sorted_rows (map (dict_row header) data) = Inl e"
proof -
  let ?D = "dict_row header"
  let ?others = "filter (\<lambda>r. \<not> is_all r) data"
  have c1: "collect cpu_of (map ?D data) =
      Inr (map (\<lambda>d. if 1 < length d then PStr (d ! 1) else PNone) data)"
    by (simp add: collect_Inr cpu_of_header)
  have f2: "filter (\<lambda>row. cpu_of row \<noteq> Inr (PStr ''all'')) (map ?D data) = map ?D ?others"
    by (simp add: filter_map comp_def cpu_of_all)
  from sort_key_of_other [OF assms(3)] obtain e where e: "sort_key_of (?D r) = Inl e" ..
  have "?D r \<in> set (map ?D ?others)" using assms by simp
  from collect_Inl [of "?D r" "map ?D ?others" sort_key_of e, OF this e] obtain e' where "collect sort_key_of (map ?D ?others) = Inl e'" ..
  then show ?thesis
    unfolding sorted_rows_def c1 f2 Let_def by simp
qed

lemma render_header:
  "map (\<lambda>k. case map_of (dict_row header r) k of None \<Rightarrow> [] | Some v \<Rightarrow> cell v) (map Some header) =
     take 12 r @ replicate (12 - length r) []"
proof (rule nth_equalityI)
  show "length (map (\<lambda>k. case map_of (dict_row header r) k of None \<Rightarrow> [] | Some v \<Rightarrow> cell v) (map Some header)) =
      length (take 12 r @ replicate (12 - length r) [])"
    by (simp add: header_length)
next
  fix i
  assume "i < length (map (\<lambda>k. case map_of (dict_row header r) k of None \<Rightarrow> [] | Some v \<Rightarrow> cell v) (map Some header))"
  then have i: "i < 12" by (simp add: header_length)
  then have "map (\<lambda>k. case map_of (dict_row header r) k of None \<Rightarrow> [] | Some v \<Rightarrow> cell v) (map Some header) ! i =
      cell (fields12 r ! i)"
    by (simp add: header_length lookup_header)
  also have "\<dots> = (take 12 r @ replicate (12 - length r) []) ! i"
    using i by (simp add: fields12_nth nth_append)
  finally show "map (\<lambda>k. case map_of (dict_row header r) k of None \<Rightarrow> [] | Some v \<Rightarrow> cell v) (map Some header) ! i =
      (take 12 r @ replicate (12 - length r) []) ! i" .
qed

lemma dict_to_list_wide:
  "dict_to_list (map Some header @ [None]) (dict_row header r) = Inr (widen True r)"
proof -
  have ok: "\<not> (\<exists>k \<in> set (dict_keys (dict_row header r)). k \<notin> set (map Some header @ [None]))"
    by (auto simp: dict_keys_header)
  have vals: "map (\<lambda>k. case map_of (dict_row header r) k of None \<Rightarrow> [] | Some v \<Rightarrow> cell v)
        (map Some header @ [None]) = widen True r"
    by (simp add: render_header lookup_rest widen_def del: map_map)
  show ?thesis
    unfolding dict_to_list_def vals using ok by simp
qed

lemma dict_to_list_narrow:
  "dict_to_list (map Some header) (dict_row header r) =
     (if 12 < length r then Inl ValueError else Inr (widen False r))"
proof -
  have bad: "(\<exists>k \<in> set (dict_keys (dict_row header r)). k \<notin> set (map Some header)) = (12 < length r)"
    by (auto simp: dict_keys_header)
  have vals: "map (\<lambda>k. case map_of (dict_row header r) k of None \<Rightarrow> [] | Some v \<Rightarrow> cell v)
        (map Some header) = widen False r"
    by (simp add: render_header widen_def del: map_map)
  show ?thesis
    unfolding dict_to_list_def bad vals by simp
qed

lemma writerows_wide:
  "writerows (map Some header @ [None]) (map (dict_row header) S) f =
     (Returned, f @ map (widen True) S)"
  by (induction S arbitrary: f) (simp_all add: dict_to_list_wide)

lemma writerows_narrow:
  "writerows (map Some header) (map (dict_row header) S) f =
     (if \<exists>r \<in> set S. 12 < length r
      then (SysExit 1, f @ map (widen False) (takeWhile (\<lambda>r. \<not> 12 < length r) S))
      else (Returned, f @ map (widen False) S))"
  by (induction S arbitrary: f) (simp_all add: dict_to_list_narrow)

lemma sorted_records_Nil: "sorted_records data = [] \<longleftrightarrow> data = []"
proof -
  have "length (sorted_records data) = length data"
    by (simp add: sorted_records_def sum_length_filter_compl)
  then show ?thesis by (metis length_0_conv)
qed

lemma dict_reader_header:
  "[] \<notin> set data \<Longrightarrow> dict_reader (header # data) = map (dict_row header) data"
proof -
  assume "[] \<notin> set data"
  then have "filter (\<lambda>r. r \<noteq> []) data = data" by (induction data) auto
  then show ?thesis by (simp add: dict_reader_def)
qed

lemma csv_reader_header: "\<not> over_limit data \<Longrightarrow> csv_reader (header # data) = Inr (header # data)"
  by (simp add: csv_reader_def over_limit_header)

lemma sort_cpu_data_unsortable:
  assumes "\<not> over_limit data" "[] \<notin> set data" "r \<in> set data" "\<not> is_all r" "\<not> numbered r"
  shows "sort_cpu_data (header # data) = (SysExit 1, header # data)"
proof -
  from sorted_rows_fail [OF assms(3,4,5)] obtain e
    where "sorted_rows (map (dict_row header) data) = Inl e" ..
  then show ?thesis
    by (simp add: sort_cpu_data_def csv_reader_header [OF assms(1)] dict_reader_header [OF assms(2)])
qed

lemma sort_cpu_data_sortable:
  assumes "\<not> over_limit data" "[] \<notin> set data" "\<forall>r \<in> set data. is_all r \<or> numbered r"
  shows "sort_cpu_data (header # data) =
     (case sorted_records data of
        [] \<Rightarrow> (SysExit 1, [])
      | first # rest \<Rightarrow>
          if 12 < length first
          then (Returned, (header @ [[]]) # map (widen True) (first # rest))
          else if \<exists>r \<in> set rest. 12 < length r
          then (SysExit 1, header # map (widen False) (takeWhile (\<lambda>r. \<not> 12 < length r) (first # rest)))
          else (Returned, header # map (widen False) (first # rest)))"
proof (cases "sorted_records data")
  case Nil
  then show ?thesis
    by (simp add: sort_cpu_data_def csv_reader_header [OF assms(1)] dict_reader_header [OF assms(2)]
        sorted_rows_ok [OF assms(3)] item_def)
next
  case (Cons first rest)
  have sd: "sort_cpu_data (header # data) =
     writerows (dict_keys (dict_row header first)) (map (dict_row header) (first # rest))
       [map key_cell (dict_keys (dict_row header first))]"
    by (simp add: sort_cpu_data_def csv_reader_header [OF assms(1)] dict_reader_header [OF assms(2)]
        sorted_rows_ok [OF assms(3)] item_def Cons Let_def)
  show ?thesis
  proof (cases "12 < length first")
    case True
    have dk: "dict_keys (dict_row header first) = map Some header @ [None]"
      using True by (simp add: dict_keys_header)
    have kc: "map key_cell (map Some header @ [None]) = header @ [[]]"
      by (simp add: key_cell_def comp_def)
    show ?thesis unfolding sd dk kc writerows_wide using True Cons by simp
  next
    case False
    have dk: "dict_keys (dict_row header first) = map Some header"
      using False by (simp add: dict_keys_header)
    have kc: "map key_cell (map Some header) = header"
      by (simp add: key_cell_def comp_def)
    show ?thesis unfolding sd dk kc writerows_narrow using False Cons by simp
  qed
qed

lemma first_seen_snoc:
  "first_seen (xs @ [x]) = (if x \<in> set xs then first_seen xs else first_seen xs @ [x])"
  by (simp add: first_seen_def)

lemma first_seen_set: "set (first_seen xs) = set xs"
  by (simp add: first_seen_def)

lemma first_seen_distinct: "distinct (first_seen xs)"
  by (simp add: first_seen_def)

lemma map_of_keyed:
  "map_of (map (\<lambda>c. (c, f c)) cs) k = (if k \<in> set cs then Some (f k) else None)"
  by (induction cs) auto

lemma start_of_snoc: "xs \<noteq> [] \<Longrightarrow> start_of (xs @ [r]) = start_of xs"
  by (cases xs) (simp_all add: start_of_def)

lemma elapsed_rows_snoc:
  "xs \<noteq> [] \<Longrightarrow> elapsed_rows (xs @ [r]) = elapsed_rows xs @ [r[0 := str_int (seconds r - start_of xs)]]"
  by (simp add: elapsed_rows_def start_of_snoc)

lemma series_snoc:
  "series c (seen @ [r]) = (if cpu_field r = c then series c seen @ [r] else series c seen)"
  by (simp add: series_def)

lemma series_empty: "series c seen = [] \<longleftrightarrow> c \<notin> cpu_field ` set seen"
  by (auto simp: series_def filter_empty_conv)

lemma group_row_step:
  assumes "timed r"
  shows "group_row (buckets seen) r = Inr (buckets (seen @ [r]))"
proof -
  let ?c = "cpu_field r"
  let ?ids = "first_seen (map cpu_field seen)"
  let ?B = "\<lambda>d c. \<lparr>start_time = start_of (series c d), rows = elapsed_rows (series c d)\<rparr>"
  from assms obtain t where len: "2 \<le> length r" and t: "strptime (time_field r) = Some t"
    by (auto simp: timed_def)
  from len have i1: "item r (Suc 0) = Some ?c" and i0: "item r 0 = Some (time_field r)"
    by (auto simp: item_def cpu_field_def time_field_def)
  have sec: "seconds r = t" using t by (simp add: seconds_def)
  have lookup: "map_of (buckets seen) ?c = (if ?c \<in> set ?ids then Some (?B seen ?c) else None)"
    unfolding buckets_def by (rule map_of_keyed)
  show ?thesis
  proof (cases "?c \<in> cpu_field ` set seen")
    case False
    then have notin: "?c \<notin> set ?ids" by (simp add: first_seen_set)
    have none: "map_of (buckets seen) ?c = None" using lookup notin by simp
    have empty: "series ?c seen = []" using False by (simp add: series_empty)
    have same: "map (\<lambda>(c, b1). if c = ?c then (c, b1\<lparr>rows := rows b1 @ [r[0 := str_int 0]]\<rparr>) else (c, b1)) (buckets seen)
        = buckets seen"
      unfolding buckets_def using notin by (auto simp: map_idI)
    have old: "map (\<lambda>c. (c, ?B (seen @ [r]) c)) ?ids = buckets seen"
      unfolding buckets_def using notin by (auto simp: series_snoc)
    have new: "?B (seen @ [r]) ?c = \<lparr>start_time = t, rows = [r[0 := str_int 0]]\<rparr>"
      by (simp add: series_snoc empty start_of_def elapsed_rows_def sec)
    have "group_row (buckets seen) r =
        Inr (buckets seen @ [(?c, \<lparr>start_time = t, rows = [r[0 := str_int 0]]\<rparr>)])"
      unfolding group_row_def by (simp add: i1 i0 t none Let_def same map_add_def)
    also have "buckets seen @ [(?c, \<lparr>start_time = t, rows = [r[0 := str_int 0]]\<rparr>)] = buckets (seen @ [r])"
      using False old new by (simp add: buckets_def [of "seen @ [r]"] first_seen_snoc)
    finally show ?thesis .
  next
    case True
    then have isin: "?c \<in> set ?ids" by (simp add: first_seen_set)
    have some: "map_of (buckets seen) ?c = Some (?B seen ?c)" using lookup isin by simp
    have ne: "series ?c seen \<noteq> []" using True by (simp add: series_empty)
    have upd: "map (\<lambda>(c, b1). if c = ?c then (c, b1\<lparr>rows := rows b1 @ [r[0 := str_int (t - start_of (series ?c seen))]]\<rparr>) else (c, b1)) (buckets seen)
        = buckets (seen @ [r])"
      unfolding buckets_def using True
      by (auto simp: first_seen_snoc series_snoc start_of_snoc [OF ne] elapsed_rows_snoc [OF ne] sec)
    show ?thesis
      unfolding group_row_def by (simp add: i1 i0 t some Let_def upd)
  qed
qed

lemma group_rows_buckets:
  "\<forall>r \<in> set data. timed r \<Longrightarrow> group_rows (buckets seen) data = Inr (buckets (seen @ data))"
proof (induction data arbitrary: seen)
  case Nil
  then show ?case by simp
next
  case (Cons r data)
  from Cons.prems have tr: "timed r" and rest: "\<forall>r \<in> set data. timed r" by simp_all
  from Cons.IH [OF rest, of "seen @ [r]"] group_row_step [OF tr, of "seen"]
  show ?case by simp
qed

lemma group_row_untimed: "\<not> timed r \<Longrightarrow> \<exists>e. group_row gd r = Inl e"
  by (auto simp: group_row_def timed_def item_def time_field_def split: option.splits)

lemma group_rows_untimed:
  "r \<in> set data \<Longrightarrow> \<not> timed r \<Longrightarrow> \<exists>e. group_rows gd data = Inl e"
proof (induction data arbitrary: gd)
  case Nil
  then show ?case by simp
next
  case (Cons x data)
  show ?case
  proof (cases "group_row gd x")
    case (Inl e)
    then show ?thesis by simp
  next
    case (Inr gd1)
    with group_row_untimed [of x gd] have "timed x" by auto
    with Cons.prems have "r \<in> set data" by auto
    from Cons.IH [OF this Cons.prems(2), of gd1] Inr show ?thesis by simp
  qed
qed

lemma buckets_rows: "concat (map (\<lambda>(c, b). rows b) (buckets data)) = grouped_table data"
  by (simp add: buckets_def grouped_table_def comp_def)

lemma process_file_over_limit: "over_limit f \<Longrightarrow> process_file f = (SysExit 1, f)"
  by (simp add: process_file_def csv_reader_def)

lemma process_file_timed:
  assumes "\<not> over_limit ((h0 # hs) # data)" "\<forall>r \<in> set data. timed r"
  shows "process_file ((h0 # hs) # data) = (Returned, (''time'' # hs) # grouped_table data)"
proof -
  have "buckets [] = []" by (simp add: buckets_def first_seen_def)
  with group_rows_buckets [OF assms(2), of "[]"] have "group_rows [] data = Inr (buckets data)"
    by simp
  with assms(1) show ?thesis by (simp add: process_file_def csv_reader_def buckets_rows)
qed

lemma process_file_untimed:
  assumes "r \<in> set data" "\<not> timed r"
  shows "process_file ((h0 # hs) # data) = (SysExit 1, (h0 # hs) # data)"
proof -
  from group_rows_untimed [OF assms, of "[]"] obtain e where "group_rows [] data = Inl e" ..
  then show ?thesis by (simp add: process_file_def csv_reader_def)
qed

lemma records_nonempty: "[] \<notin> set (records lines)"
proof
  assume "[] \<in> set (records lines)"
  then obtain l where "qualifying l" "tokens l = []" by (auto simp: records_def)
  with tokens_nonempty [of l] show False by simp
qed

lemma convert_to_csv_parsed: "convert_to_csv lines old = (Returned, header # parsed lines)"
  by (simp add: convert_to_csv_eq parsed_def)

lemma main_over_limit:
  "over_limit (parsed lines) \<Longrightarrow> main lines old = (SysExit 1, header # parsed lines)"
  by (simp add: main_def after_def convert_to_csv_parsed remove_cpu_rows_parsed)

lemma main_after_sort:
  "\<not> over_limit (parsed lines) \<Longrightarrow>
   main lines old = after (sort_cpu_data (header # records lines)) process_file"
  by (simp add: main_def after_def convert_to_csv_parsed remove_cpu_rows_parsed)

lemma records_small: "\<not> over_limit (parsed lines) \<Longrightarrow> \<not> over_limit (records lines)"
  unfolding records_def parsed_def by (rule over_limit_filter)

lemma process_file_header_timed:
  assumes "hdr = ''time'' # hs" "\<not> over_limit (hdr # data)" "\<forall>r \<in> set data. timed r"
  shows "process_file (hdr # data) = (Returned, hdr # grouped_table data)"
  using assms(2) unfolding assms(1) by (rule process_file_timed [OF _ assms(3)])

lemma process_file_header_untimed:
  assumes "hdr = ''time'' # hs" "r \<in> set data" "\<not> timed r"
  shows "process_file (hdr # data) = (SysExit 1, hdr # data)"
  unfolding assms(1) by (rule process_file_untimed [OF assms(2,3)])

lemma header_time: "header = ''time'' # tl header"
  by (simp add: header_def)

lemma wide_header_time: "header @ [[]] = ''time'' # (tl header @ [[]])"
  by (simp add: header_def)

lemma main_unsortable:
  assumes "\<not> over_limit (parsed lines)"
    and "r \<in> set (records lines)" "\<not> is_all r" "\<not> numbered r"
  shows "main lines old = (SysExit 1, header # records lines)"
  by (simp add: main_after_sort [OF assms(1)] after_def
      sort_cpu_data_unsortable [OF records_small [OF assms(1)] records_nonempty assms(2,3,4)])

lemma main_sortable:
  assumes "\<not> over_limit (parsed lines)"
    and "\<forall>r \<in> set (records lines). is_all r \<or> numbered r"
  shows "main lines old =
     (case sorted_records (records lines) of
        [] \<Rightarrow> (SysExit 1, [])
      | first # rest \<Rightarrow>
          if 12 < length first
          then process_file ((header @ [[]]) # map (widen True) (first # rest))
          else if \<exists>r \<in> set rest. 12 < length r
          then (SysExit 1, header # map (widen False) (takeWhile (\<lambda>r. \<not> 12 < length r) (first # rest)))
          else process_file (header # map (widen False) (first # rest)))"
  by (simp add: main_after_sort [OF assms(1)] after_def
      sort_cpu_data_sortable [OF records_small [OF assms(1)] records_nonempty assms(2)]
      split: list.splits)

lemma process_file_cases:
  assumes "hdr = ''time'' # hs"
  shows "process_file (hdr # data) =
     (if over_limit (hdr # data) \<or> (\<exists>r \<in> set data. \<not> timed r) then (SysExit 1, hdr # data)
      else (Returned, hdr # grouped_table data))"
proof (cases "over_limit (hdr # data)")
  case True
  then show ?thesis by (simp add: process_file_over_limit)
next
  case small: False
  show ?thesis
  proof (cases "\<forall>r \<in> set data. timed r")
    case True
    with small show ?thesis by (simp add: process_file_header_timed [OF assms])
  next
    case False
    then obtain r where "r \<in> set data" "\<not> timed r" by auto
    from process_file_header_untimed [OF assms this] this show ?thesis by auto
  qed
qed

lemma main_returned:
  assumes "main lines old = (Returned, out)"
  shows "\<exists>e. (\<forall>r \<in> set (records lines). is_all r \<or> numbered r) \<and>
             records lines \<noteq> [] \<and>
             (\<forall>r \<in> set (sorted_records (records lines)). timed (widen e r)) \<and>
             out = (header @ (if e then [[]] else [])) #
                   grouped_table (map (widen e) (sorted_records (records lines)))"
proof -
  let ?P = "records lines"
  have small: "\<not> over_limit (parsed lines)"
  proof
    assume "over_limit (parsed lines)"
    from main_over_limit [OF this] assms show False by simp
  qed
  have ok: "\<forall>r \<in> set ?P. is_all r \<or> numbered r"
  proof (rule ccontr)
    assume "\<not> (\<forall>r \<in> set ?P. is_all r \<or> numbered r)"
    then obtain r where "r \<in> set ?P" "\<not> is_all r" "\<not> numbered r" by auto
    from main_unsortable [OF small this] assms show False by simp
  qed
  note m = main_sortable [OF small ok, of old]
  show ?thesis
  proof (cases "sorted_records ?P")
    case Nil
    with m assms show ?thesis by simp
  next
    case (Cons first rest)
    then have ne: "?P \<noteq> []" using sorted_records_Nil [of ?P] by auto
    show ?thesis
    proof (cases "12 < length first")
      case True
      with m Cons have "main lines old = process_file ((header @ [[]]) # map (widen True) (first # rest))"
        by simp
      with assms process_file_cases [OF wide_header_time, of "map (widen True) (first # rest)"]
      have "(\<forall>r \<in> set (map (widen True) (first # rest)). timed r) \<and>
            out = (header @ [[]]) # grouped_table (map (widen True) (first # rest))"
        by (auto split: if_splits)
      with ok ne Cons show ?thesis by (intro exI [of _ True]) simp
    next
      case False
      show ?thesis
      proof (cases "\<exists>r \<in> set rest. 12 < length r")
        case True
        with m Cons False assms show ?thesis by simp
      next
        case nolong: False
        with m Cons False have "main lines old = process_file (header # map (widen False) (first # rest))"
          by simp
        with assms process_file_cases [OF header_time, of "map (widen False) (first # rest)"]
        have "(\<forall>r \<in> set (map (widen False) (first # rest)). timed r) \<and>
              out = header # grouped_table (map (widen False) (first # rest))"
          by (auto split: if_splits)
        with ok ne Cons show ?thesis by (intro exI [of _ False]) simp
      qed
    qed
  qed
qed

lemma example_run: "main example_log [] = (Returned, example_table)"
  by code_simp

section \<open>The final table\<close>

lemma find_append:
  "find P (xs @ ys) = (case find P xs of None \<Rightarrow> find P ys | Some x \<Rightarrow> Some x)"
  by (induction xs) simp_all

lemma find_concat: "find P (concat xss) = Some r \<Longrightarrow> \<exists>xs \<in> set xss. find P xs = Some r"
  by (induction xss) (auto simp: find_append split: option.splits)

lemma find_all: "find P xs = Some r \<Longrightarrow> \<forall>x \<in> set xs. P x \<Longrightarrow> xs \<noteq> [] \<and> r = hd xs"
  by (cases xs) auto

lemma find_in: "find P xs = Some r \<Longrightarrow> r \<in> set xs \<and> P r"
  by (auto simp: find_Some_iff)

lemma cpu_field_update: "cpu_field (r[0 := x]) = cpu_field r"
  by (simp add: cpu_field_def item_def)

lemma time_field_update: "r \<noteq> [] \<Longrightarrow> time_field (r[0 := x]) = x"
  by (simp add: time_field_def item_def)

lemma series_cpu: "r \<in> set (series c data) \<Longrightarrow> cpu_field r = c"
  by (simp add: series_def)

lemma elapsed_rows_cpu: "r \<in> set (elapsed_rows rs) \<Longrightarrow> \<exists>w \<in> set rs. cpu_field r = cpu_field w"
  by (auto simp: elapsed_rows_def cpu_field_update)

lemma str_int_zero: "str_int 0 = ''0''"
  by (simp add: str_int_def digit_char_def)

lemma hd_elapsed_rows:
  assumes "rs \<noteq> []" "hd rs \<noteq> []"
  shows "time_field (hd (elapsed_rows rs)) = ''0''"
proof -
  from assms obtain r0 rest where rs: "rs = r0 # rest" and r0: "r0 \<noteq> []" by (cases rs) auto
  then show ?thesis
    by (simp add: elapsed_rows_def start_of_def time_field_update str_int_zero)
qed

lemma grouped_first_zero:
  assumes "[] \<notin> set data" "find (\<lambda>r. cpu_field r = c) (grouped_table data) = Some r"
  shows "time_field r = ''0''"
proof -
  from find_concat [OF assms(2) [unfolded grouped_table_def]]
  obtain c' where f: "find (\<lambda>r. cpu_field r = c) (elapsed_rows (series c' data)) = Some r"
    by auto
  from find_in [OF f] have rin: "r \<in> set (elapsed_rows (series c' data))" and rc: "cpu_field r = c"
    by simp_all
  from elapsed_rows_cpu [OF rin] series_cpu have "cpu_field r = c'" by fastforce
  with rc have cc: "c' = c" by simp
  have "\<forall>x \<in> set (elapsed_rows (series c data)). cpu_field x = c"
    using elapsed_rows_cpu series_cpu by fastforce
  with find_all [OF f [unfolded cc]] have ne: "elapsed_rows (series c data) \<noteq> []"
    and r: "r = hd (elapsed_rows (series c data))" by simp_all
  from ne have sne: "series c data \<noteq> []" by (simp add: elapsed_rows_def)
  then have "hd (series c data) \<in> set data"
    by (metis filter_is_subset hd_in_set series_def subsetD)
  with assms(1) have "hd (series c data) \<noteq> []" by auto
  from hd_elapsed_rows [OF sne this] r show ?thesis by simp
qed

lemma widen_length: "12 \<le> length (widen e r)"
  by (simp add: widen_def)

lemma elapsed_rows_length: "r \<in> set (elapsed_rows rs) \<Longrightarrow> \<exists>w \<in> set rs. length r = length w"
  by (auto simp: elapsed_rows_def)

lemma grouped_table_length_rows:
  assumes "r \<in> set (grouped_table data)"
  shows "\<exists>w \<in> set data. length r = length w"
proof -
  from assms obtain c where "r \<in> set (elapsed_rows (series c data))"
    by (auto simp: grouped_table_def)
  from elapsed_rows_length [OF this] show ?thesis by (auto simp: series_def)
qed

lemma main_rows_wide:
  assumes "main lines old = (Returned, out)" "r \<in> set (tl out)"
  shows "12 \<le> length r"
proof -
  from main_returned [OF assms(1)] obtain e where
    out: "out = (header @ (if e then [[]] else [])) #
                grouped_table (map (widen e) (sorted_records (records lines)))"
    by blast
  with assms(2) have "r \<in> set (grouped_table (map (widen e) (sorted_records (records lines))))"
    by simp
  from grouped_table_length_rows [OF this] widen_length show ?thesis by auto
qed

lemma item_fields:
  "12 \<le> length r \<Longrightarrow> (item r (Suc 0) = Some c) = (cpu_field r = c)"
  "12 \<le> length r \<Longrightarrow> item r 0 = Some (time_field r)"
  by (auto simp: cpu_field_def time_field_def item_def)

text \<open>
  Claim C1: when the run returns, the first row of every series in the final table has the
  elapsed time \<open>0\<close>. For every series identifier \<open>c\<close>, the first data row whose second
  field is \<open>c\<close> has \<open>0\<close> as its first field.
\<close>

theorem first_row_elapsed_zero:
  assumes "main lines old = (Returned, out)"
    and "find (\<lambda>r. item r 1 = Some c) (tl out) = Some r"
  shows "item r 0 = Some ''0''"
proof -
  from main_returned [OF assms(1)] obtain e where
    out: "out = (header @ (if e then [[]] else [])) #
                grouped_table (map (widen e) (sorted_records (records lines)))"
    by blast
  let ?W = "map (widen e) (sorted_records (records lines))"
  have wide: "\<forall>x \<in> set (tl out). 12 \<le> length x"
    using main_rows_wide [OF assms(1)] by blast
  have "find (\<lambda>r. item r 1 = Some c) (tl out) = find (\<lambda>r. cpu_field r = c) (tl out)"
    by (rule find_cong) (simp_all add: wide item_fields)
  with assms(2) out have f: "find (\<lambda>r. cpu_field r = c) (grouped_table ?W) = Some r" by simp
  have "[] \<notin> set ?W"
  proof
    assume "[] \<in> set ?W"
    then obtain p where "[] = widen e p" by auto
    then have "length (widen e p) = 0" by simp
    with widen_length [of e p] show False by simp
  qed
  from grouped_first_zero [OF this f] have "time_field r = ''0''" .
  moreover from find_in [OF assms(2)] wide have "12 \<le> length r" by blast
  ultimately show ?thesis by (simp add: item_fields)
qed

theorem first_row_elapsed_zero_witness:
  "main example_log [] = (Returned, example_table) \<and>
   find (\<lambda>r. item r 1 = Some ''0'') (tl example_table) = Some (example_table ! 3) \<and>
   item (example_table ! 3) 0 = Some ''0''"
proof -
  have f: "find (\<lambda>r. item r 1 = Some ''0'') (tl example_table) = Some (example_table ! 3)"
    by (simp add: example_table_def item_def header_def)
  from first_row_elapsed_zero [OF example_run f] example_run f show ?thesis by simp
qed

lemma sum_indicator:
  "distinct cs \<Longrightarrow> sum_list (map (\<lambda>c. if k = c then (1::nat) else 0) cs) = (if k \<in> set cs then 1 else 0)"
  by (induction cs) auto

lemma sum_filter_lengths:
  "distinct cs \<Longrightarrow> f ` set xs \<subseteq> set cs \<Longrightarrow>
   sum_list (map (\<lambda>c. length (filter (\<lambda>r. f r = c) xs)) cs) = length xs"
proof (induction xs)
  case Nil
  then show ?case by simp
next
  case (Cons x xs)
  have "sum_list (map (\<lambda>c. length (filter (\<lambda>r. f r = c) (x # xs))) cs) =
      sum_list (map (\<lambda>c. (if f x = c then 1 else 0) + length (filter (\<lambda>r. f r = c) xs)) cs)"
    by (rule arg_cong [where f = sum_list]) (rule map_cong, simp_all)
  also have "\<dots> = sum_list (map (\<lambda>c. if f x = c then (1::nat) else 0) cs) +
      sum_list (map (\<lambda>c. length (filter (\<lambda>r. f r = c) xs)) cs)"
    by (simp add: sum_list_addf)
  also have "\<dots> = 1 + length xs"
    using Cons by (simp add: sum_indicator)
  finally show ?case by simp
qed

lemma grouped_table_length: "length (grouped_table data) = length data"
proof -
  have "length (grouped_table data) =
      sum_list (map (\<lambda>c. length (filter (\<lambda>r. cpu_field r = c) data)) (first_seen (map cpu_field data)))"
    by (simp add: grouped_table_def length_concat comp_def elapsed_rows_def series_def)
  also have "\<dots> = length data"
    by (rule sum_filter_lengths) (simp_all add: first_seen_distinct first_seen_set)
  finally show ?thesis .
qed

lemma sorted_records_length: "length (sorted_records data) = length data"
  by (simp add: sorted_records_def sum_length_filter_compl)

lemma records_length:
  "length (records lines) + length (filter is_cpu_row (map tokens (filter qualifying lines))) =
     length (filter qualifying lines)"
  using sum_length_filter_compl [of is_cpu_row "map tokens (filter qualifying lines)"]
  by (simp add: records_def)

text \<open>
  Claim C7: when the run returns, the number of data rows of the final table is the number
  of qualifying lines of the input minus the number of rows that \<open>remove_cpu_rows\<close>
  removed; sorting and grouping keep every row.
\<close>

theorem row_count_preserved:
  assumes "main lines old = (Returned, out)"
  shows "length (tl out) + length (filter is_cpu_row (map tokens (filter qualifying lines))) =
     length (filter qualifying lines)"
proof -
  from main_returned [OF assms] obtain e where
    out: "out = (header @ (if e then [[]] else [])) #
                grouped_table (map (widen e) (sorted_records (records lines)))"
    by blast
  then have "length (tl out) = length (records lines)"
    by (simp add: grouped_table_length sorted_records_length)
  with records_length [of lines] show ?thesis by simp
qed

theorem row_count_preserved_witness:
  "main example_log [] = (Returned, example_table) \<and>
   length (tl example_table) + length (filter is_cpu_row (map tokens (filter qualifying example_log))) =
     length (filter qualifying example_log) \<and>
   length (tl example_table) = 4 \<and> length (filter qualifying example_log) = 5"
proof -
  have a: "length (tl example_table) = 4" by (simp add: example_table_def)
  have b: "length (filter qualifying example_log) = 5" by code_simp
  from row_count_preserved [OF example_run] example_run a b show ?thesis by simp
qed

section \<open>Fields and series of the final table\<close>

lemma grouped_table_rows:
  assumes "r \<in> set (grouped_table data)"
  shows "\<exists>w \<in> set data. \<exists>x. r = w[0 := x]"
proof -
  from assms obtain c where "r \<in> set (elapsed_rows (series c data))"
    by (auto simp: grouped_table_def)
  then show ?thesis by (auto simp: elapsed_rows_def series_def)
qed

lemma widen_nth:
  assumes "i < 12"
  shows "widen e p ! i = (if i < length p then p ! i else [])"
proof (cases "i < length p")
  case True
  with assms show ?thesis by (simp add: widen_def nth_append)
next
  case False
  with assms have len: "length p \<le> i" and "i - length p < 12 - length p" by simp_all
  then have "(replicate (12 - length p) [] @ (if e then [if 12 < length p then str_list (drop 12 p) else []] else [])) ! (i - length p) = ([]::string)"
    by (simp add: nth_append)
  with False len assms show ?thesis by (simp add: widen_def nth_append)
qed

lemma sorted_records_set: "set (sorted_records data) = set data"
  by (auto simp: sorted_records_def)

lemma records_tokens: "p \<in> set (records lines) \<Longrightarrow> \<exists>l \<in> set lines. qualifying l \<and> p = tokens l"
  by (auto simp: records_def)

text \<open>
  Claim C10, as the code has it. When the run returns, every data row of the final table
  comes from a qualifying line of the input, and each of its fields 1 to 11 is the token
  of that line at the same index when the line has such a token, and is empty when the
  line is shorter. Nothing is said of a thirteenth field: tokens beyond the twelfth are
  not kept as fields of their own.
\<close>

theorem fields_passed_through:
  assumes "main lines old = (Returned, out)" and "r \<in> set (tl out)"
  shows "\<exists>l \<in> set lines. qualifying l \<and>
     (\<forall>i. 1 \<le> i \<and> i < 12 \<longrightarrow>
        item r i = Some (if i < length (tokens l) then tokens l ! i else []))"
proof -
  from main_returned [OF assms(1)] obtain e where
    out: "out = (header @ (if e then [[]] else [])) #
                grouped_table (map (widen e) (sorted_records (records lines)))"
    by blast
  with assms(2) have "r \<in> set (grouped_table (map (widen e) (sorted_records (records lines))))"
    by simp
  from grouped_table_rows [OF this] obtain p x
    where p: "p \<in> set (records lines)" and r: "r = (widen e p)[0 := x]"
    by (auto simp: sorted_records_set)
  from records_tokens [OF p] obtain l where l: "l \<in> set lines" "qualifying l" "p = tokens l"
    by auto
  have "item r i = Some (if i < length p then p ! i else [])" if "1 \<le> i" "i < 12" for i
  proof -
    from that widen_length [of e p] have "i < length (widen e p)" by simp
    with that show ?thesis by (simp add: r item_def widen_nth)
  qed
  with l show ?thesis by auto
qed

theorem fields_passed_through_witness:
  "main example_log [] = (Returned, example_table) \<and>
   example_table ! 4 \<in> set (tl example_table) \<and>
   (\<exists>l \<in> set example_log. qualifying l \<and>
      (\<forall>i. 1 \<le> i \<and> i < 12 \<longrightarrow>
         item (example_table ! 4) i = Some (if i < length (tokens l) then tokens l ! i else [])))"
proof -
  have m: "example_table ! 4 \<in> set (tl example_table)"
    by (simp add: example_table_def)
  from fields_passed_through [OF example_run m] example_run m show ?thesis by blast
qed

text \<open>
  Claim C10 as stated fails on a line of thirteen tokens: the run returns, and the field
  of index 12 of the final row is the text of a Python list, not the token of index 12.
\<close>

theorem surplus_token_counterexample:
  "main [''08:00:01 0 a b c d e f g h i j k''] [] =
     (Returned, [header @ [[]],
                 [''0'', ''0'', ''a'', ''b'', ''c'', ''d'', ''e'', ''f'', ''g'', ''h'', ''i'', ''j'',
                  [CHR ''['', CHR 0x27, CHR ''k'', CHR 0x27, CHR '']'']]]) \<and>
   item (tokens ''08:00:01 0 a b c d e f g h i j k'') 12 = Some ''k''"
  by code_simp

section \<open>The rows of one series\<close>

lemma is_all_cpu_field: "is_all r = (cpu_field r = ''all'')"
  by (auto simp: is_all_def cpu_field_def split: option.splits)

lemma py_digits_limit:
  "max_str_digits < len (filter (\<lambda>x. digit_val x \<noteq> None) s) \<Longrightarrow> py_digits s = None"
  by (cases s) (auto simp: py_digits_def split: option.splits)

lemma py_int_separator: "py_int [CHR 0x1C, CHR ''3''] = None \<and> py_int [CHR 0x20, CHR ''3''] = Some 3"
  by code_simp

lemma py_int_empty: "py_int [] = None"
  by (simp add: py_int_def int_strip_def)

lemma cpu_number_field:
  "cpu_number r = (case py_int (cpu_field r) of None \<Rightarrow> 0 | Some n \<Rightarrow> n)"
  by (simp add: cpu_number_def cpu_field_def py_int_empty split: option.splits)

lemma filter_sort_key_refined:
  assumes "\<And>x. P x \<Longrightarrow> k x = k0"
  shows "filter P (sort_key k xs) = filter P xs"
proof -
  have "filter P ys = filter P (filter (\<lambda>y. k y = k0) ys)" for ys
    using assms by (auto intro: filter_cong)
  then have "filter P (sort_key k xs) = filter P (filter (\<lambda>y. k y = k0) (sort_key k xs))"
    by blast
  also have "\<dots> = filter P (filter (\<lambda>y. k y = k0) xs)"
    by (simp only: sort_key_stable)
  also have "\<dots> = filter P xs"
    using assms by (auto intro: filter_cong)
  finally show ?thesis .
qed

lemma series_sorted_records: "series c (sorted_records data) = series c data"
proof -
  have st: "filter (\<lambda>r. cpu_field r = c) (sort_key cpu_number (filter (\<lambda>r. \<not> is_all r) data)) =
      filter (\<lambda>r. cpu_field r = c) (filter (\<lambda>r. \<not> is_all r) data)"
    by (rule filter_sort_key_refined [where ?k0.0 = "case py_int c of None \<Rightarrow> 0 | Some n \<Rightarrow> n"])
       (simp add: cpu_number_field)
  show ?thesis
  proof (cases "c = ''all''")
    case True
    then show ?thesis
      unfolding series_def sorted_records_def filter_append st
      by (simp add: is_all_cpu_field)
  next
    case False
    then have a: "filter (\<lambda>r. cpu_field r = c) (filter is_all data) = []"
      by (auto simp: filter_empty_conv is_all_cpu_field)
    have b: "filter (\<lambda>r. cpu_field r = c) (filter (\<lambda>r. \<not> is_all r) data) =
        filter (\<lambda>r. cpu_field r = c) data"
      using False by (auto simp: is_all_cpu_field intro: filter_cong)
    show ?thesis
      unfolding series_def sorted_records_def filter_append st a b by simp
  qed
qed


lemma cpu_field_widen: "cpu_field (widen e p) = cpu_field p"
proof -
  have "1 < length (widen e p)" using widen_length [of e p] by simp
  then show ?thesis
    using widen_nth [of 1 e p] by (simp add: cpu_field_def item_def)
qed



lemma series_widen: "series c (map (widen e) data) = map (widen e) (series c data)"
  by (simp add: series_def filter_map comp_def cpu_field_widen)


lemma concat_single:
  "distinct cs \<Longrightarrow> concat (map (\<lambda>c'. if c' = c then X else []) cs) = (if c \<in> set cs then X else [])"
  by (induction cs) auto

lemma series_elapsed_rows:
  "series c (elapsed_rows (series c' data)) = (if c' = c then elapsed_rows (series c data) else [])"
proof -
  have all: "\<forall>r \<in> set (elapsed_rows (series c' data)). cpu_field r = c'"
    using elapsed_rows_cpu series_cpu by fastforce
  show ?thesis
  proof (cases "c' = c")
    case True
    with all show ?thesis by (simp add: series_def [of c "elapsed_rows _"])
  next
    case False
    with all show ?thesis by (auto simp: series_def [of c "elapsed_rows _"] filter_empty_conv)
  qed
qed

lemma series_grouped_table: "series c (grouped_table data) = elapsed_rows (series c data)"
proof -
  let ?ids = "first_seen (map cpu_field data)"
  have "series c (grouped_table data) =
      concat (map (\<lambda>c'. series c (elapsed_rows (series c' data))) ?ids)"
    by (simp add: grouped_table_def series_def [of c "concat _"] filter_concat comp_def
        series_def [of c "elapsed_rows _"])
  also have "\<dots> = concat (map (\<lambda>c'. if c' = c then elapsed_rows (series c data) else []) ?ids)"
    by (simp only: series_elapsed_rows)
  also have "\<dots> = (if c \<in> set ?ids then elapsed_rows (series c data) else [])"
    by (rule concat_single) (rule first_seen_distinct)
  also have "\<dots> = elapsed_rows (series c data)"
  proof (cases "c \<in> set ?ids")
    case True
    then show ?thesis by simp
  next
    case False
    then have "series c data = []" by (simp add: first_seen_set series_empty)
    with False show ?thesis by (simp add: elapsed_rows_def)
  qed
  finally show ?thesis .
qed


lemma main_series:
  assumes "main lines old = (Returned, out)"
  shows "\<exists>e. series c (tl out) = elapsed_rows (map (widen e) (series c (records lines)))"
proof -
  from main_returned [OF assms] obtain e where
    out: "out = (header @ (if e then [[]] else [])) #
                grouped_table (map (widen e) (sorted_records (records lines)))"
    by blast
  then have "series c (tl out) = elapsed_rows (map (widen e) (series c (records lines)))"
    by (simp add: series_grouped_table series_widen series_sorted_records)
  then show ?thesis ..
qed





section \<open>The order of the final table\<close>

lemma cpu_number_ident: "cpu_number r = ident_number (cpu_field r)"
  by (simp add: cpu_number_field ident_number_def)

lemma ident_le_refl: "ident_le c c"
  by (simp add: ident_le_def)

lemma sorted_wrt_first_seen: "sorted_wrt R xs \<Longrightarrow> sorted_wrt R (first_seen xs)"
proof (induction xs rule: rev_induct)
  case Nil
  then show ?case by (simp add: first_seen_def)
next
  case (snoc x xs)
  then show ?case
    by (auto simp: first_seen_snoc sorted_wrt_append first_seen_set)
qed

lemma sorted_wrt_all: "(\<forall>x \<in> set xs. \<forall>y \<in> set xs. P x y) \<Longrightarrow> sorted_wrt P xs"
  by (induction xs) auto

lemma sorted_wrt_blocks:
  assumes "sorted_wrt R cs" "\<And>c. R c c" "\<And>c x. x \<in> set (B c) \<Longrightarrow> f x = c"
  shows "sorted_wrt (\<lambda>a b. R (f a) (f b)) (concat (map B cs))"
  using assms(1)
proof (induction cs)
  case Nil
  then show ?case by simp
next
  case (Cons c cs)
  have inner: "sorted_wrt (\<lambda>a b. R (f a) (f b)) (B c)"
    by (rule sorted_wrt_all) (simp add: assms(2,3))
  have cross: "R (f x) (f y)" if "x \<in> set (B c)" "y \<in> set (concat (map B cs))" for x y
  proof -
    from that(2) obtain c' where "c' \<in> set cs" "y \<in> set (B c')" by auto
    with Cons.prems that(1) show ?thesis by (auto simp: assms(3))
  qed
  from Cons inner cross show ?case by (simp add: sorted_wrt_append)
qed

lemma sorted_records_order:
  "sorted_wrt (\<lambda>a b. ident_le (cpu_field a) (cpu_field b)) (sorted_records data)"
proof -
  let ?others = "sort_key cpu_number (filter (\<lambda>r. \<not> is_all r) data)"
  have alls: "sorted_wrt (\<lambda>a b. ident_le (cpu_field a) (cpu_field b)) (filter is_all data)"
    by (rule sorted_wrt_all) (simp add: ident_le_def is_all_cpu_field)
  have "sorted (map cpu_number ?others)" by (rule sorted_sort_key)
  then have num: "sorted_wrt (\<lambda>a b. cpu_number a \<le> cpu_number b) ?others"
    by (simp add: sorted_map)
  have others: "sorted_wrt (\<lambda>a b. ident_le (cpu_field a) (cpu_field b)) ?others"
    by (rule sorted_wrt_mono_rel [OF _ num])
       (auto simp: ident_le_def is_all_cpu_field cpu_number_ident)
  show ?thesis
    unfolding sorted_records_def
    using alls others by (auto simp: sorted_wrt_append ident_le_def is_all_cpu_field)
qed

lemma grouped_table_order:
  assumes "sorted_wrt (\<lambda>a b. ident_le (cpu_field a) (cpu_field b)) data"
  shows "sorted_wrt (\<lambda>a b. ident_le (cpu_field a) (cpu_field b)) (grouped_table data)"
proof -
  from assms have "sorted_wrt ident_le (map cpu_field data)" by (simp add: sorted_wrt_map)
  then have ids: "sorted_wrt ident_le (first_seen (map cpu_field data))"
    by (rule sorted_wrt_first_seen)
  show ?thesis
    unfolding grouped_table_def
  proof (rule sorted_wrt_blocks [OF ids ident_le_refl])
    fix c x
    assume "x \<in> set (elapsed_rows (series c data))"
    from elapsed_rows_cpu [OF this] series_cpu show "cpu_field x = c" by fastforce
  qed
qed

lemma grouped_table_by_series:
  "grouped_table data =
     concat (map (\<lambda>c. series c (grouped_table data)) (first_seen (map cpu_field data)))"
  by (simp add: series_grouped_table) (simp add: grouped_table_def)

text \<open>
  Claim C2, as the code has it. When the run returns, the series identifiers of the data
  rows of the final table, read from top to bottom, are in order: \<open>all\<close> first, then the
  other identifiers by ascending integer. Every identifier is \<open>all\<close> or an integer. The
  rows of one series stand together, and they are the rows of that series in their order
  of arrival. The order of the integers need not be strict: two identifiers can spell the
  same integer and are then two series with the same number.
\<close>

theorem final_table_order:
  assumes "main lines old = (Returned, out)"
  shows "sorted_wrt ident_le (map cpu_field (tl out)) \<and>
         (\<forall>r \<in> set (tl out). cpu_field r = ''all'' \<or> py_int (cpu_field r) \<noteq> None) \<and>
         (\<exists>ids. distinct ids \<and> tl out = concat (map (\<lambda>c. series c (tl out)) ids)) \<and>
         (\<exists>e. series c (tl out) = elapsed_rows (map (widen e) (series c (records lines))))"
proof -
  from main_returned [OF assms] obtain e where
    ok: "\<forall>r \<in> set (records lines). is_all r \<or> numbered r" and
    out: "out = (header @ (if e then [[]] else [])) #
                grouped_table (map (widen e) (sorted_records (records lines)))"
    by blast
  let ?W = "map (widen e) (sorted_records (records lines))"
  have tl: "tl out = grouped_table ?W" using out by simp
  have "sorted_wrt (\<lambda>a b. ident_le (cpu_field a) (cpu_field b)) ?W"
    using sorted_records_order [of "records lines"] by (simp add: sorted_wrt_map cpu_field_widen)
  from grouped_table_order [OF this] have 1: "sorted_wrt ident_le (map cpu_field (tl out))"
    by (simp add: tl sorted_wrt_map)
  have 2: "\<forall>r \<in> set (tl out). cpu_field r = ''all'' \<or> py_int (cpu_field r) \<noteq> None"
  proof
    fix r
    assume "r \<in> set (tl out)"
    with tl have "r \<in> set (grouped_table ?W)" by simp
    from grouped_table_rows [OF this] obtain p x
      where p: "p \<in> set (records lines)" and r: "r = (widen e p)[0 := x]"
      by (auto simp: sorted_records_set)
    from r have cf: "cpu_field r = cpu_field p" by (simp add: cpu_field_update cpu_field_widen)
    from ok p have "is_all p \<or> numbered p" by blast
    then show "cpu_field r = ''all'' \<or> py_int (cpu_field r) \<noteq> None"
      unfolding cf by (auto simp: is_all_cpu_field numbered_def cpu_field_def split: option.splits)
  qed
  have 3: "\<exists>ids. distinct ids \<and> tl out = concat (map (\<lambda>c. series c (tl out)) ids)"
    unfolding tl using grouped_table_by_series [of ?W] first_seen_distinct by blast
  from 1 2 3 main_series [OF assms, of c] show ?thesis by blast
qed

theorem final_table_order_witness:
  "main example_log [] = (Returned, example_table) \<and>
   map cpu_field (tl example_table) = [''all'', ''all'', ''0'', ''0''] \<and>
   sorted_wrt ident_le (map cpu_field (tl example_table))"
proof -
  have a: "map cpu_field (tl example_table) = [''all'', ''all'', ''0'', ''0'']"
    by code_simp
  from final_table_order [OF example_run, of "''0''"] example_run a show ?thesis by simp
qed

text \<open>
  Claim C2 as stated asks for strictly ascending integers. The identifiers \<open>1\<close> and \<open>01\<close>
  are two series for \<open>process_file\<close> and one integer for \<open>sort_cpu_data\<close>: the run
  returns with the series \<open>1\<close> followed by the series \<open>01\<close>.
\<close>

theorem equal_number_counterexample:
  "main [''08:00:01 1 a'', ''08:00:01 01 b'', ''08:00:02 1 c''] [] =
     (Returned, [header,
                 [''0'', ''1'', ''a'', [], [], [], [], [], [], [], [], []],
                 [''1'', ''1'', ''c'', [], [], [], [], [], [], [], [], []],
                 [''0'', ''01'', ''b'', [], [], [], [], [], [], [], [], []]]) \<and>
   py_int ''1'' = Some 1 \<and> py_int ''01'' = Some 1"
  by code_simp

section \<open>What a failed run leaves\<close>

text \<open>
  The exit at the normalizer is within reach: one line that is a single token of 131073
  digits passes the parser, and the reader of \<open>remove_cpu_rows\<close> refuses it.
\<close>

lemma long_field_exit:
  "main [replicate 131073 (CHR ''1'')] old =
     (SysExit 1, [header, [replicate 131073 (CHR ''1'')]])"
proof -
  define w where "w = replicate 131073 (CHR ''1'')"
  have len: "length w = 131073" and elems: "set w = {CHR ''1''}"
    by (simp_all add: w_def)
  from elems have plain: "\<forall>c \<in> set w. \<not> isspace c" by (simp add: isspace_def ord_def)
  from len have ne: "w \<noteq> []" by auto
  then obtain c cs where w: "w = c # cs" by (cases w) auto
  with elems have "c = CHR ''1''" by auto
  then have "isdigit c" by (simp add: isdigit_def ord_def)
  moreover from strip_plain [OF plain] w have "strip w = c # cs" by simp
  ultimately have q: "qualifying w" by (simp add: qualifying_def)
  have t: "tokens w = [w]"
    by (simp add: tokens_def split_def strip_plain [OF plain] split_from_word [OF plain] ne)
  from q t have p: "parsed [w] = [[w]]" by (simp add: parsed_def)
  have "over_limit (parsed [w])"
    unfolding p by (simp add: over_limit_def len_def field_limit_def len)
  from main_over_limit [OF this, of old] have "main [w] old = (SysExit 1, [header, [w]])"
    by (simp only: p)
  then show ?thesis unfolding w_def .
qed

text \<open>
  Claim C4, as the code has it. Every run that does not return exits with the code 1, and
  the CSV path is not cleaned: it holds what the stages had written when the exception
  was raised. The cause fixes the state:
  \<^item> a field longer than \<open>csv.reader\<close> accepts stops the normalizer, and the path keeps the
    table of the parser, header repeats included;
  \<^item> a series identifier that is neither \<open>all\<close> nor an integer stops the sorter, and the
    path keeps the table of the normalizer, header and unsorted records;
  \<^item> with no record to sort the sorter stops after it has emptied the file;
  \<^item> a record of more than twelve fields after a first sorted record of at most twelve
    stops the writer of the sorter, and the path keeps the header and the sorted rows
    before that record;
  \<^item> a row that the grouper cannot read (a time that is no time of the day, or a field
    beyond the limit of the reader) stops the grouper, and the path keeps the whole
    sorted table, with the times of the day.

  In every other case the run returns, with the header and the grouped table.
\<close>

theorem run_outcome:
  "main lines old =
     (if over_limit (parsed lines) then (SysExit 1, header # parsed lines)
      else if \<exists>r \<in> set (records lines). \<not> is_all r \<and> \<not> numbered r
      then (SysExit 1, header # records lines)
      else if records lines = [] then (SysExit 1, [])
      else
        let S = sorted_records (records lines); wide = 12 < length (hd S) in
        if \<not> wide \<and> (\<exists>r \<in> set S. 12 < length r)
        then (SysExit 1, header # map (widen False) (takeWhile (\<lambda>r. \<not> 12 < length r) S))
        else
          let T = (header @ (if wide then [[]] else [])) # map (widen wide) S in
          if over_limit T \<or> (\<exists>r \<in> set (tl T). \<not> timed r) then (SysExit 1, T)
          else (Returned, hd T # grouped_table (tl T)))"
proof (cases "over_limit (parsed lines)")
  case True
  then show ?thesis by (simp add: main_over_limit)
next
  case small: False
  show ?thesis
  proof (cases "\<forall>r \<in> set (records lines). is_all r \<or> numbered r")
    case False
    then obtain r where "r \<in> set (records lines)" "\<not> is_all r" "\<not> numbered r" by auto
    from main_unsortable [OF small this, of old] this small show ?thesis by auto
  next
    case all_ok: True
    note m = main_sortable [OF small all_ok, of old]
    from all_ok have ok: "\<not> (\<exists>r \<in> set (records lines). \<not> is_all r \<and> \<not> numbered r)" by auto
    show ?thesis
    proof (cases "sorted_records (records lines)")
      case Nil
      then have "records lines = []" using sorted_records_Nil [of "records lines"] by simp
      with m Nil small show ?thesis by (simp add: ok)
    next
      case (Cons first rest)
      then have ne: "records lines \<noteq> []" using sorted_records_Nil [of "records lines"] by auto
      show ?thesis
      proof (cases "12 < length first")
        case wide: True
        with m Cons
        have "main lines old = process_file ((header @ [[]]) # map (widen True) (first # rest))"
          by simp
        with process_file_cases [OF wide_header_time, of "map (widen True) (first # rest)"]
        have "main lines old =
           (if over_limit ((header @ [[]]) # map (widen True) (first # rest)) \<or>
               (\<exists>r \<in> set (map (widen True) (first # rest)). \<not> timed r)
            then (SysExit 1, (header @ [[]]) # map (widen True) (first # rest))
            else (Returned, (header @ [[]]) # grouped_table (map (widen True) (first # rest))))"
          by simp
        with small ne Cons wide show ?thesis by (simp add: Let_def ok)
      next
        case narrow: False
        show ?thesis
        proof (cases "\<exists>r \<in> set rest. 12 < length r")
          case True
          with m Cons narrow
          have "main lines old =
             (SysExit 1, header # map (widen False) (takeWhile (\<lambda>r. \<not> 12 < length r) (first # rest)))"
            by simp
          with small ne Cons narrow True show ?thesis by (simp add: Let_def ok)
        next
          case False
          with m Cons narrow
          have "main lines old = process_file (header # map (widen False) (first # rest))"
            by simp
          with process_file_cases [OF header_time, of "map (widen False) (first # rest)"]
          have "main lines old =
             (if over_limit (header # map (widen False) (first # rest)) \<or>
                 (\<exists>r \<in> set (map (widen False) (first # rest)). \<not> timed r)
              then (SysExit 1, header # map (widen False) (first # rest))
              else (Returned, header # grouped_table (map (widen False) (first # rest))))"
            by simp
          with small ne Cons narrow False show ?thesis by (simp add: Let_def ok)
        qed
      qed
    qed
  qed
qed

theorem run_outcome_witness:
  "main [''08:00:01 0 1.0'', ''99:00:00 0 2.0''] [[''stale'']] =
     (SysExit 1, [header,
                  [''08:00:01'', ''0'', ''1.0'', [], [], [], [], [], [], [], [], []],
                  [''99:00:00'', ''0'', ''2.0'', [], [], [], [], [], [], [], [], []]])"
  by (rule trans [OF run_outcome]) code_simp

text \<open>
  Claim C4 as stated fails: a series identifier that is no integer stops the run in
  \<open>sort_cpu_data\<close>, and the CSV path keeps the header and the unsorted record that the
  two stages before had written.
\<close>

theorem partial_output_counterexample:
  "main [''08:00:01 x 1.0''] [] = (SysExit 1, [header, [''08:00:01'', ''x'', ''1.0'']])"
  by code_simp


end
